theory Spec2Isabelle
  imports Complex_Main "HOL-Library.Multiset"
begin

section \<open>The data model of \<open>pyxirr/pure.py\<close>\<close>

text \<open>
  The module computes the internal rate of return of dated cash flows: \<open>xnpv\<close> evaluates
  the net present value at a rate, \<open>secant\<close> looks for a root of a function inside a
  bracket, and \<open>xirr\<close> feeds the first to the second over the bracket from 0 to 10.

  Python's \<open>float\<close> is the IEEE-754 binary64 format. A finite float is a real number, and
  every arithmetic operation returns the exact result rounded to a float. The embedding
  takes that rounding as a parameter \<open>rnd\<close> of every function: \<open>x - y\<close> of the source is
  \<open>rnd (x - y)\<close> here. With \<open>rnd = exact\<close> the model is the real-valued reading of the
  code; with \<open>rnd = rnd53\<close> it is binary64 wherever no operation overflows or underflows.
  Infinities, NaN and the overflow of \<open>**\<close> are outside the model.

  A date is its day number (an \<open>int\<close>), so that the difference of two dates is the day
  count the source reads from \<open>.days\<close>.
\<close>

datatype error = ConvergenceFailed | ZeroDivisionError | IndexError | ComplexResult

type_synonym rounding = "real \<Rightarrow> real"

type_synonym objective = "real \<Rightarrow> error + real"

type_synonym cash_flows = "(int \<times> real) list"

definition exact :: rounding where
  "exact x = x"

text \<open>
  Rounding to the nearest float with a 53-bit significand, ties to the even significand,
  with an unbounded exponent: IEEE-754 binary64 on its normal range.
\<close>

definition round_half_even :: "real \<Rightarrow> int" where
  "round_half_even y =
     (let fl = \<lfloor>y\<rfloor>; d = y - of_int fl
      in if d < 1 / 2 then fl
         else if 1 / 2 < d then fl + 1
         else if even fl then fl else fl + 1)"

definition rnd53 :: rounding where
  "rnd53 x =
     (if x = 0 then 0
      else let e = \<lfloor>log 2 \<bar>x\<bar>\<rfloor> - 52
           in of_int (round_half_even (x / 2 powi e)) * 2 powi e)"

text \<open>
  The solver's arithmetic keeps the sign of every result when no product underflows.
\<close>

definition sign_faithful :: "rounding \<Rightarrow> bool" where
  "sign_faithful rnd = (\<forall>x. (rnd x < 0) = (x < 0) \<and> (0 < rnd x) = (0 < x))"

section \<open>The secant solver\<close>

text \<open>
  One pass through the body of the \<open>for\<close> loop of \<open>secant\<close> (lines 48 to 72), at
  iteration \<open>n\<close> with the bracket \<open>a_n\<close>, \<open>b_n\<close> and the checkpoint \<open>prev_m_n\<close>
  (\<open>None\<close> until it is recorded). The pass raises, returns, or goes on to the next
  iteration with a new bracket and checkpoint. The objective is a pure function that
  returns a float or raises; the division raises \<open>ZeroDivisionError\<close> on a zero divisor.
\<close>

datatype outcome = Raise error | Return "real option" | Continue real real "real option"

definition secant_estimate :: "rounding \<Rightarrow> real \<Rightarrow> real \<Rightarrow> real \<Rightarrow> real \<Rightarrow> real" where
  "secant_estimate rnd a_n b_n f_a_n f_b_n =
     rnd (a_n - rnd (rnd (f_a_n * rnd (b_n - a_n)) / rnd (f_b_n - f_a_n)))"

definition secant_step ::
  "rounding \<Rightarrow> objective \<Rightarrow> real \<Rightarrow> real \<Rightarrow> nat \<Rightarrow> real \<Rightarrow> real \<Rightarrow> real option \<Rightarrow> outcome" where
  "secant_step rnd f eps_y eps_x n a_n b_n prev_m_n =
     (case f a_n of Inl e \<Rightarrow> Raise e | Inr f_a_n \<Rightarrow>
     (case f b_n of Inl e \<Rightarrow> Raise e | Inr f_b_n \<Rightarrow>
      if rnd (f_b_n - f_a_n) = 0 then Raise ZeroDivisionError
      else
        let m_n = secant_estimate rnd a_n b_n f_a_n f_b_n in
       (case f m_n of Inl e \<Rightarrow> Raise e | Inr f_m_n \<Rightarrow>
        if n mod 100 = 0 \<and> prev_m_n = Some m_n then Raise ConvergenceFailed
        else
          let prev_m_n = (if n mod 100 = 0 \<and> prev_m_n = None then Some m_n else prev_m_n) in
          if \<bar>rnd (b_n - a_n)\<bar> < eps_x then Return (Some m_n)
          else if \<bar>f_m_n\<bar> < eps_y then Return (Some m_n)
          else if rnd (f_a_n * f_m_n) < 0 then Continue a_n m_n prev_m_n
          else if rnd (f_b_n * f_m_n) < 0 then Continue m_n b_n prev_m_n
          else Return None)))"

text \<open>
  The loop \<open>for n in range(1, N + 1)\<close>, from iteration \<open>n\<close> on. Running out of
  iterations returns \<open>None\<close> (line 75).
\<close>

function secant_loop ::
  "rounding \<Rightarrow> objective \<Rightarrow> nat \<Rightarrow> real \<Rightarrow> real \<Rightarrow> nat \<Rightarrow> real \<Rightarrow> real \<Rightarrow> real option
     \<Rightarrow> error + real option" where
  "secant_loop rnd f N eps_y eps_x n a_n b_n prev_m_n =
     (if N < n then Inr None
      else case secant_step rnd f eps_y eps_x n a_n b_n prev_m_n of
             Raise e \<Rightarrow> Inl e
           | Return r \<Rightarrow> Inr r
           | Continue a' b' p' \<Rightarrow> secant_loop rnd f N eps_y eps_x (Suc n) a' b' p')"
  by pat_completeness auto
termination
  by (relation "measure (\<lambda>(rnd, f, N, eps_y, eps_x, n, a_n, b_n, p). Suc N - n)") auto

text \<open>
  \<open>secant(f, a, b, N, eps_y, eps_x)\<close>: the sign test of lines 41 to 43, then the loop
  from iteration 1 with no checkpoint. \<open>Inr (Some m)\<close> is the returned estimate,
  \<open>Inr None\<close> the returned \<open>None\<close>, \<open>Inl e\<close> a raised exception.
\<close>

definition secant ::
  "rounding \<Rightarrow> objective \<Rightarrow> real \<Rightarrow> real \<Rightarrow> nat \<Rightarrow> real \<Rightarrow> real \<Rightarrow> error + real option" where
  "secant rnd f a b N eps_y eps_x =
     (case f a of Inl e \<Rightarrow> Inl e | Inr f_a \<Rightarrow>
     (case f b of Inl e \<Rightarrow> Inl e | Inr f_b \<Rightarrow>
      if 0 \<le> rnd (f_a * f_b) then Inr None
      else secant_loop rnd f N eps_y eps_x 1 a b None))"

text \<open>
  The state of the loop at the start of iteration \<open>n\<close>, when the run gets that far:
  the bracket and the checkpoint. It is \<open>None\<close> when the sign test or an earlier
  iteration has already ended the run.
\<close>

fun secant_state ::
  "rounding \<Rightarrow> objective \<Rightarrow> real \<Rightarrow> real \<Rightarrow> real \<Rightarrow> real \<Rightarrow> nat
     \<Rightarrow> (real \<times> real \<times> real option) option" where
  "secant_state rnd f eps_y eps_x a b 0 = None"
| "secant_state rnd f eps_y eps_x a b (Suc 0) =
     (case f a of Inl e \<Rightarrow> None | Inr f_a \<Rightarrow>
     (case f b of Inl e \<Rightarrow> None | Inr f_b \<Rightarrow>
      if 0 \<le> rnd (f_a * f_b) then None else Some (a, b, None)))"
| "secant_state rnd f eps_y eps_x a b (Suc (Suc n)) =
     (case secant_state rnd f eps_y eps_x a b (Suc n) of
        None \<Rightarrow> None
      | Some (a_n, b_n, prev_m_n) \<Rightarrow>
          (case secant_step rnd f eps_y eps_x (Suc n) a_n b_n prev_m_n of
             Continue a' b' p' \<Rightarrow> Some (a', b', p')
           | _ \<Rightarrow> None))"

section \<open>The net present value\<close>

text \<open>
  Python's \<open>x ** y\<close> on floats: 1 for a zero exponent or a base of 1, \<open>ZeroDivisionError\<close>
  for a zero base with a negative exponent, a complex number (here the error
  \<open>ComplexResult\<close>) for a negative base with a fractional exponent. Otherwise it is
  the exact power rounded. The C library's \<open>pow\<close> may differ from that in the last bit,
  except at the exponents 0 and 1 and at the base 1, which are the only ones that the
  binary64 runs below meet.
\<close>

definition float_pow :: "rounding \<Rightarrow> real \<Rightarrow> real \<Rightarrow> error + real" where
  "float_pow rnd x y =
     (if y = 0 \<or> x = 1 then Inr 1
      else if x = 0 then (if y < 0 then Inl ZeroDivisionError else Inr 0)
      else if x < 0 then
        (if of_int \<lfloor>y\<rfloor> = y then Inr (rnd (x powi \<lfloor>y\<rfloor>)) else Inl ComplexResult)
      else Inr (rnd (x powr y)))"

text \<open>
  The \<open>for\<close> loop of \<open>xnpv\<close> (lines 103 to 111) over the remaining items, with the
  running sum \<open>x\<close>, \<open>last_power\<close> and \<open>last_raised\<close>. Dates and day counts are both
  integers here, so the two branches on \<open>already_day_diffs\<close> compute the same power.
\<close>

fun xnpv_loop ::
  "rounding \<Rightarrow> real \<Rightarrow> int \<Rightarrow> bool \<Rightarrow> cash_flows \<Rightarrow> real \<Rightarrow> real \<Rightarrow> real \<Rightarrow> error + real" where
  "xnpv_loop rnd rate_plus_1 t0 already_day_diffs [] x last_power last_raised = Inr x"
| "xnpv_loop rnd rate_plus_1 t0 already_day_diffs (item # rest) x last_power last_raised =
     (let new_power =
            (if already_day_diffs then rnd (real_of_int (fst item - t0) / 365)
             else rnd (real_of_int (fst item - t0) / 365))
      in case float_pow rnd rate_plus_1 (rnd (new_power - last_power)) of
           Inl e \<Rightarrow> Inl e
         | Inr p \<Rightarrow>
             let last_raised = rnd (p * last_raised) in
             if last_raised = 0 then Inl ZeroDivisionError
             else xnpv_loop rnd rate_plus_1 t0 already_day_diffs rest
                    (rnd (x + rnd (snd item / last_raised))) new_power last_raised)"

definition xnpv :: "rounding \<Rightarrow> real \<Rightarrow> cash_flows \<Rightarrow> bool \<Rightarrow> bool \<Rightarrow> error + real" where
  "xnpv rnd rate cash_flow sorted' already_day_diffs =
     (let cash_flow = (if \<not> sorted' then sort_key fst cash_flow else cash_flow)
      in case cash_flow of
           [] \<Rightarrow> Inl IndexError
         | item0 # _ \<Rightarrow>
             xnpv_loop rnd (rnd (rate + 1)) (fst item0) already_day_diffs cash_flow 0 0 1)"

section \<open>The orchestrator\<close>

text \<open>
  Lines 134 to 138 of \<open>xirr\<close>: the amounts converted to floats, the entries sorted by
  date (Python's sort is stable, as \<open>sort_key\<close> is), and the dates replaced by their
  day offsets from the first one. Reading the first entry of an empty series raises
  \<open>IndexError\<close>.
\<close>

definition day_offsets :: "rounding \<Rightarrow> cash_flows \<Rightarrow> error + cash_flows" where
  "day_offsets rnd cash_flow =
     (let cash_flow = sort_key fst (map (\<lambda>(dt, amount). (dt, rnd amount)) cash_flow)
      in case cash_flow of
           [] \<Rightarrow> Inl IndexError
         | (t0, _) # _ \<Rightarrow> Inr (map (\<lambda>(dt, amount). (dt - t0, amount)) cash_flow))"

text \<open>
  The body of the \<open>try\<close> (line 140): the solver on the closure of \<open>xnpv\<close>, over the
  bracket from 0.0 to 10.0 with 2000 iterations and the default tolerances \<open>1e-6\<close>.
\<close>

definition xirr_solve :: "rounding \<Rightarrow> cash_flows \<Rightarrow> error + real option" where
  "xirr_solve rnd cash_flow =
     (case day_offsets rnd cash_flow of
        Inl e \<Rightarrow> Inl e
      | Inr cash_flow \<Rightarrow>
          secant rnd (\<lambda>r. xnpv rnd r cash_flow True True) 0 10 2000
            (rnd (1 / 10 ^ 6)) (rnd (1 / 10 ^ 6)))"

text \<open>
  \<open>xirr(cash_flow, guess, silent)\<close>: the \<open>except ConvergenceFailed\<close> clause returns
  \<open>None\<close> when \<open>silent\<close> holds and raises again otherwise; every other outcome
  passes through.
\<close>

definition xirr :: "rounding \<Rightarrow> cash_flows \<Rightarrow> 'g \<Rightarrow> bool \<Rightarrow> error + real option" where
  "xirr rnd cash_flow guess silent =
     (case xirr_solve rnd cash_flow of
        Inl ConvergenceFailed \<Rightarrow> (if silent then Inr None else Inl ConvergenceFailed)
      | r \<Rightarrow> r)"

section \<open>Predicates for the proofs\<close>

text \<open>
  A bracket of the solver over exact arithmetic: the left end below the right end, the
  objective defined at both with values of opposite signs.
\<close>

definition bracketed :: "objective \<Rightarrow> real \<Rightarrow> real \<Rightarrow> bool" where
  "bracketed f a_n b_n =
     (a_n < b_n \<and> (\<exists>f_a f_b. f a_n = Inr f_a \<and> f b_n = Inr f_b \<and> f_a * f_b < 0))"

text \<open>
  A recorded checkpoint is an estimate at which the objective is defined and not zero:
  the pass that recorded it went on to the next iteration.
\<close>

definition checkpoint_ok :: "objective \<Rightarrow> real option \<Rightarrow> bool" where
  "checkpoint_ok f p = (case p of None \<Rightarrow> True | Some m \<Rightarrow> (\<exists>v. f m = Inr v \<and> v \<noteq> 0))"

section \<open>An objective that stalls late\<close>

text \<open>
  The pure objective \<open>lambda x: 2.0**100 if x == 0 else (-2.0**100 if x > 2.0**50 else -1.0)\<close>.
  On the bracket from 0 to \<open>2.0**200\<close> every value and every intermediate result of the
  solver is a power of two well inside the range of binary64, apart from one sum that
  rounds to a power of two.
\<close>

definition stall_objective :: objective where
  "stall_objective x = Inr (if x = 0 then 2 ^ 100 else if 2 ^ 50 < x then - (2 ^ 100) else - 1)"

section \<open>The secant solver on floats that may be NaN\<close>

text \<open>
  A float is a finite number or NaN. An arithmetic operation on finite floats returns
  the exact result rounded, and NaN when an operand is NaN; the division raises
  \<open>ZeroDivisionError\<close> on a divisor equal to zero, whatever the dividend; every
  comparison with NaN is false, \<open>==\<close> included. Infinities are outside the model.
\<close>

datatype pyfloat = Finite real | NaN

fun fl_sub :: "rounding \<Rightarrow> pyfloat \<Rightarrow> pyfloat \<Rightarrow> pyfloat" where
  "fl_sub rnd (Finite x) (Finite y) = Finite (rnd (x - y))"
| "fl_sub rnd _ _ = NaN"

fun fl_mul :: "rounding \<Rightarrow> pyfloat \<Rightarrow> pyfloat \<Rightarrow> pyfloat" where
  "fl_mul rnd (Finite x) (Finite y) = Finite (rnd (x * y))"
| "fl_mul rnd _ _ = NaN"

fun fl_div :: "rounding \<Rightarrow> pyfloat \<Rightarrow> pyfloat \<Rightarrow> error + pyfloat" where
  "fl_div rnd x (Finite y) =
     (if y = 0 then Inl ZeroDivisionError
      else case x of Finite u \<Rightarrow> Inr (Finite (rnd (u / y))) | NaN \<Rightarrow> Inr NaN)"
| "fl_div rnd x NaN = Inr NaN"

fun fl_abs :: "pyfloat \<Rightarrow> pyfloat" where
  "fl_abs (Finite x) = Finite \<bar>x\<bar>"
| "fl_abs NaN = NaN"

fun fl_less :: "pyfloat \<Rightarrow> pyfloat \<Rightarrow> bool" where
  "fl_less (Finite x) (Finite y) = (x < y)"
| "fl_less _ _ = False"

fun fl_le :: "pyfloat \<Rightarrow> pyfloat \<Rightarrow> bool" where
  "fl_le (Finite x) (Finite y) = (x \<le> y)"
| "fl_le _ _ = False"

fun fl_eq :: "pyfloat \<Rightarrow> pyfloat \<Rightarrow> bool" where
  "fl_eq (Finite x) (Finite y) = (x = y)"
| "fl_eq _ _ = False"

type_synonym objective_nan = "pyfloat \<Rightarrow> error + pyfloat"

datatype outcome_nan =
  RaiseN error | ReturnN "pyfloat option" | ContinueN pyfloat pyfloat "pyfloat option"

text \<open>
  Line 50: \<open>m_n = a_n - f_a_n * (b_n - a_n) / (f_b_n - f_a_n)\<close>.
\<close>

definition secant_estimate_nan ::
  "rounding \<Rightarrow> pyfloat \<Rightarrow> pyfloat \<Rightarrow> pyfloat \<Rightarrow> pyfloat \<Rightarrow> error + pyfloat" where
  "secant_estimate_nan rnd a_n b_n f_a_n f_b_n =
     (case fl_div rnd (fl_mul rnd f_a_n (fl_sub rnd b_n a_n)) (fl_sub rnd f_b_n f_a_n) of
        Inl e \<Rightarrow> Inl e
      | Inr q \<Rightarrow> Inr (fl_sub rnd a_n q))"

text \<open>
  One pass through the body of the loop (lines 48 to 72), as \<open>secant_step\<close>, on floats
  that may be NaN. The checkpoint, once recorded, may be NaN too; \<open>prev_m_n == m_n\<close> is
  then false.
\<close>

definition secant_step_nan ::
  "rounding \<Rightarrow> objective_nan \<Rightarrow> real \<Rightarrow> real \<Rightarrow> nat \<Rightarrow> pyfloat \<Rightarrow> pyfloat \<Rightarrow> pyfloat option
     \<Rightarrow> outcome_nan" where
  "secant_step_nan rnd f eps_y eps_x n a_n b_n prev_m_n =
     (case f a_n of Inl e \<Rightarrow> RaiseN e | Inr f_a_n \<Rightarrow>
     (case f b_n of Inl e \<Rightarrow> RaiseN e | Inr f_b_n \<Rightarrow>
     (case secant_estimate_nan rnd a_n b_n f_a_n f_b_n of Inl e \<Rightarrow> RaiseN e | Inr m_n \<Rightarrow>
     (case f m_n of Inl e \<Rightarrow> RaiseN e | Inr f_m_n \<Rightarrow>
        if n mod 100 = 0 \<and> (case prev_m_n of None \<Rightarrow> False | Some p \<Rightarrow> fl_eq p m_n)
        then RaiseN ConvergenceFailed
        else
          let prev_m_n = (if n mod 100 = 0 \<and> prev_m_n = None then Some m_n else prev_m_n) in
          if fl_less (fl_abs (fl_sub rnd b_n a_n)) (Finite eps_x) then ReturnN (Some m_n)
          else if fl_less (fl_abs f_m_n) (Finite eps_y) then ReturnN (Some m_n)
          else if fl_less (fl_mul rnd f_a_n f_m_n) (Finite 0) then ContinueN a_n m_n prev_m_n
          else if fl_less (fl_mul rnd f_b_n f_m_n) (Finite 0) then ContinueN m_n b_n prev_m_n
          else ReturnN None))))"

function secant_loop_nan ::
  "rounding \<Rightarrow> objective_nan \<Rightarrow> nat \<Rightarrow> real \<Rightarrow> real \<Rightarrow> nat \<Rightarrow> pyfloat \<Rightarrow> pyfloat \<Rightarrow> pyfloat option
     \<Rightarrow> error + pyfloat option" where
  "secant_loop_nan rnd f N eps_y eps_x n a_n b_n prev_m_n =
     (if N < n then Inr None
      else case secant_step_nan rnd f eps_y eps_x n a_n b_n prev_m_n of
             RaiseN e \<Rightarrow> Inl e
           | ReturnN r \<Rightarrow> Inr r
           | ContinueN a' b' p' \<Rightarrow> secant_loop_nan rnd f N eps_y eps_x (Suc n) a' b' p')"
  by pat_completeness auto
termination
  by (relation "measure (\<lambda>(rnd, f, N, eps_y, eps_x, n, a_n, b_n, p). Suc N - n)") auto

text \<open>
  \<open>secant\<close> on floats that may be NaN: \<open>f(a) * f(b) >= 0\<close> is false for a NaN product,
  and the loop is then entered.
\<close>

definition secant_nan ::
  "rounding \<Rightarrow> objective_nan \<Rightarrow> pyfloat \<Rightarrow> pyfloat \<Rightarrow> nat \<Rightarrow> real \<Rightarrow> real
     \<Rightarrow> error + pyfloat option" where
  "secant_nan rnd f a b N eps_y eps_x =
     (case f a of Inl e \<Rightarrow> Inl e | Inr f_a \<Rightarrow>
     (case f b of Inl e \<Rightarrow> Inl e | Inr f_b \<Rightarrow>
      if fl_le (Finite 0) (fl_mul rnd f_a f_b) then Inr None
      else secant_loop_nan rnd f N eps_y eps_x 1 a b None))"

fun secant_state_nan ::
  "rounding \<Rightarrow> objective_nan \<Rightarrow> real \<Rightarrow> real \<Rightarrow> pyfloat \<Rightarrow> pyfloat \<Rightarrow> nat
     \<Rightarrow> (pyfloat \<times> pyfloat \<times> pyfloat option) option" where
  "secant_state_nan rnd f eps_y eps_x a b 0 = None"
| "secant_state_nan rnd f eps_y eps_x a b (Suc 0) =
     (case f a of Inl e \<Rightarrow> None | Inr f_a \<Rightarrow>
     (case f b of Inl e \<Rightarrow> None | Inr f_b \<Rightarrow>
      if fl_le (Finite 0) (fl_mul rnd f_a f_b) then None else Some (a, b, None)))"
| "secant_state_nan rnd f eps_y eps_x a b (Suc (Suc n)) =
     (case secant_state_nan rnd f eps_y eps_x a b (Suc n) of
        None \<Rightarrow> None
      | Some (a_n, b_n, prev_m_n) \<Rightarrow>
          (case secant_step_nan rnd f eps_y eps_x (Suc n) a_n b_n prev_m_n of
             ContinueN a' b' p' \<Rightarrow> Some (a', b', p')
           | _ \<Rightarrow> None))"

text \<open>
  An objective of the finite model, as an objective on floats that may be NaN: it is
  given a value at NaN, and the outcomes of the finite model are read as outcomes here.
\<close>

definition with_nan :: "objective \<Rightarrow> error + pyfloat \<Rightarrow> objective_nan" where
  "with_nan f at_nan x = (case x of Finite r \<Rightarrow> map_sum id Finite (f r) | NaN \<Rightarrow> at_nan)"

fun finite_outcome :: "outcome \<Rightarrow> outcome_nan" where
  "finite_outcome (Raise e) = RaiseN e"
| "finite_outcome (Return r) = ReturnN (map_option Finite r)"
| "finite_outcome (Continue a' b' p') = ContinueN (Finite a') (Finite b') (map_option Finite p')"

text \<open>
  What holds of every state that a run reaches: the objective has returned at both ends
  of the bracket, with values of opposite signs when both are finite; and at a recorded
  checkpoint it has returned a finite value.
\<close>

definition bracketed_nan :: "objective_nan \<Rightarrow> pyfloat \<Rightarrow> pyfloat \<Rightarrow> bool" where
  "bracketed_nan f a_n b_n =
     (\<exists>f_a f_b. f a_n = Inr f_a \<and> f b_n = Inr f_b \<and>
        (\<forall>u v. f_a = Finite u \<and> f_b = Finite v \<longrightarrow> u * v < 0))"

definition checkpoint_finite :: "objective_nan \<Rightarrow> pyfloat option \<Rightarrow> bool" where
  "checkpoint_finite f p = (case p of None \<Rightarrow> True | Some m \<Rightarrow> (\<exists>v. f m = Inr (Finite v)))"

text \<open>
  An arithmetic in which a negative result is the rounding of a negative number, and the
  product of two values that are not below \<open>eps\<close> in magnitude does not underflow to
  zero. Smaller products may round to zero.
\<close>

definition keeps_signs_above :: "rounding \<Rightarrow> real \<Rightarrow> bool" where
  "keeps_signs_above rnd eps =
     ((\<forall>x. rnd x < 0 \<longrightarrow> x < 0) \<and>
      (\<forall>x y. \<not> \<bar>x\<bar> < eps \<longrightarrow> \<not> \<bar>y\<bar> < eps \<longrightarrow> x * y < 0 \<longrightarrow> rnd (x * y) < 0))"

text \<open>
  At a recorded checkpoint the objective has returned a finite value, not zero and not
  below \<open>eps_y\<close>, and its product with the value at an end of the bracket, when negative,
  is negative once rounded.
\<close>

definition checkpoint_opposed ::
  "rounding \<Rightarrow> objective_nan \<Rightarrow> real \<Rightarrow> pyfloat \<Rightarrow> pyfloat \<Rightarrow> pyfloat option \<Rightarrow> bool" where
  "checkpoint_opposed rnd f eps_y a_n b_n p =
     (case p of
        None \<Rightarrow> True
      | Some m \<Rightarrow>
          (\<exists>v. f m = Inr (Finite v) \<and> v \<noteq> 0 \<and> \<not> \<bar>v\<bar> < eps_y \<and>
             (\<forall>u. (f a_n = Inr (Finite u) \<or> f b_n = Inr (Finite u)) \<longrightarrow> u * v < 0 \<longrightarrow>
                  rnd (u * v) < 0)))"

text \<open>
  Rounding to binary64 with gradual underflow: below \<open>2^-1022\<close> in magnitude the floats
  are the multiples of \<open>2^-1074\<close>, and a result is rounded to the nearest of them, ties
  to the even multiple; so a result below \<open>2^-1075\<close> in magnitude is zero. Overflow is
  outside the model.
\<close>

definition rnd64 :: rounding where
  "rnd64 x =
     (if \<bar>x\<bar> < 1 / 2 ^ 1022 then of_int (round_half_even (x * 2 ^ 1074)) / 2 ^ 1074
      else rnd53 x)"

text \<open>
  Pure objectives on the bracket from 0.0 to 10.0.
  \<open>lambda x: -1.0 if x == 0 else (1.0 if x == 10 else float("nan"))\<close> is NaN at the
  first estimate. \<open>lambda x: 1.0 if x == 10 else (float("nan") if x == 0 else v)\<close> is
  NaN at the left end and \<open>v\<close> everywhere else but at 10.0, also at NaN, which equals
  neither 10 nor 0.
\<close>

definition nan_inside_objective :: objective_nan where
  "nan_inside_objective x =
     Inr (if fl_eq x (Finite 0) then Finite (- 1) else if fl_eq x (Finite 10) then Finite 1 else NaN)"

definition nan_at_zero_objective :: "pyfloat \<Rightarrow> objective_nan" where
  "nan_at_zero_objective v x =
     Inr (if fl_eq x (Finite 10) then Finite 1 else if fl_eq x (Finite 0) then NaN else v)"

text \<open>
  The pure objective \<open>lambda x: 5e-324 if x == 0 else (-1.0 if x == 10 else -2.0**-10)\<close>;
  \<open>5e-324\<close> is the least positive float, \<open>2^-1074\<close>.
\<close>

definition underflow_objective :: objective_nan where
  "underflow_objective x =
     Inr (if fl_eq x (Finite 0) then Finite (1 / 2 ^ 1074)
          else if fl_eq x (Finite 10) then Finite (- 1)
          else Finite (- (1 / 2 ^ 10)))"

section \<open>The guess parameter\<close>

text \<open>
  C9. The \<open>guess\<close> parameter of \<open>xirr\<close> is inert: for every series, every \<open>silent\<close> flag
  and every two guesses, of any types, the two calls have the same outcome, the same
  returned value or the same exception.
\<close>

theorem xirr_guess_inert:
  "xirr rnd cash_flow g1 silent = xirr rnd cash_flow g2 silent"
  by (simp add: xirr_def)


section \<open>The solver over exact arithmetic\<close>

text \<open>
  The recursive equation of the loop is unfolded by hand, one iteration at a time.
\<close>

declare secant_loop.simps [simp del]

lemma exact_apply: "exact x = x"
  by (simp add: exact_def)

lemma secant_enter:
  "f a = Inr fa \<Longrightarrow> f b = Inr fb \<Longrightarrow> rnd (fa * fb) < 0 \<Longrightarrow>
   secant rnd f a b N eps_y eps_x = secant_loop rnd f N eps_y eps_x 1 a b None"
  by (simp add: secant_def)

lemma secant_loop_unfold:
  "n \<le> N \<Longrightarrow> secant_loop rnd f N eps_y eps_x n a_n b_n p =
     (case secant_step rnd f eps_y eps_x n a_n b_n p of
        Raise e \<Rightarrow> Inl e | Return r \<Rightarrow> Inr r
      | Continue a' b' p' \<Rightarrow> secant_loop rnd f N eps_y eps_x (Suc n) a' b' p')"
  by (subst secant_loop.simps) simp

lemma secant_no_sign_change:
  "f a = Inr fa \<Longrightarrow> f b = Inr fb \<Longrightarrow> 0 \<le> rnd (fa * fb) \<Longrightarrow> secant rnd f a b N eps_y eps_x = Inr None"
  by (simp add: secant_def)

text \<open>
  With values of opposite signs at the two ends, the secant estimate is a proper convex
  combination of the ends.
\<close>

lemma secant_estimate_exact:
  "secant_estimate exact a b fa fb = a - fa * (b - a) / (fb - fa)"
  by (simp add: secant_estimate_def exact_def)

lemma estimate_inside:
  fixes a b fa fb :: real
  assumes "a < b" "fa * fb < 0"
  shows "a < a - fa * (b - a) / (fb - fa)" "a - fa * (b - a) / (fb - fa) < b"
proof -
  define t where "t = - fa / (fb - fa)"
  have t: "0 < t \<and> t < 1"
  proof (cases "fa < 0")
    case True
    then have "0 < fb" using assms(2) by (simp add: mult_less_0_iff)
    with True show ?thesis by (simp add: t_def field_simps)
  next
    case False
    then have "0 < fa" "fb < 0" using assms(2) by (auto simp: mult_less_0_iff)
    then show ?thesis by (simp add: t_def field_simps)
  qed
  have eq: "a - fa * (b - a) / (fb - fa) = a + t * (b - a)"
    by (simp add: t_def)
  have "0 < t * (b - a)" using t assms(1) by simp
  then show "a < a - fa * (b - a) / (fb - fa)"
    unfolding eq by simp
  have "t * (b - a) < 1 * (b - a)"
    using t assms(1) by (intro mult_strict_right_mono) auto
  then show "a - fa * (b - a) / (fb - fa) < b"
    unfolding eq by simp
qed

lemma step_continue_bracketed:
  assumes "bracketed f a_n b_n"
    and "secant_step exact f eps_y eps_x n a_n b_n p = Continue a' b' p'"
  shows "bracketed f a' b' \<and> a_n \<le> a' \<and> b' \<le> b_n"
proof -
  from assms(1) obtain fa fb where ab: "a_n < b_n" and fa: "f a_n = Inr fa"
    and fb: "f b_n = Inr fb" and sg: "fa * fb < 0"
    by (auto simp: bracketed_def)
  define m where "m = a_n - fa * (b_n - a_n) / (fb - fa)"
  have m: "a_n < m" "m < b_n"
    using estimate_inside [OF ab sg] by (simp_all add: m_def)
  have ne: "fb - fa \<noteq> 0" using sg by auto
  from assms(2) obtain fm where fm: "f m = Inr fm"
    using ne by (auto simp: secant_step_def fa fb secant_estimate_exact m_def exact_def Let_def
        split: sum.splits if_splits)
  from assms(2) have "(fa * fm < 0 \<and> a' = a_n \<and> b' = m) \<or> (fb * fm < 0 \<and> a' = m \<and> b' = b_n)"
    using ne fm
    by (auto simp: secant_step_def fa fb secant_estimate_exact m_def [symmetric] exact_def Let_def
        split: if_splits)
  then show ?thesis
    using m ab fa fb fm by (auto simp: bracketed_def mult.commute)
qed

lemma step_return_inside:
  assumes "bracketed f a_n b_n"
    and "secant_step exact f eps_y eps_x n a_n b_n p = Return (Some r)"
  shows "a_n < r \<and> r < b_n"
proof -
  from assms(1) obtain fa fb where ab: "a_n < b_n" and fa: "f a_n = Inr fa"
    and fb: "f b_n = Inr fb" and sg: "fa * fb < 0"
    by (auto simp: bracketed_def)
  define m where "m = a_n - fa * (b_n - a_n) / (fb - fa)"
  have m: "a_n < m" "m < b_n"
    using estimate_inside [OF ab sg] by (simp_all add: m_def)
  from assms(2) have "r = m"
    by (auto simp: secant_step_def fa fb secant_estimate_exact m_def [symmetric] exact_def Let_def
        split: sum.splits if_splits)
  with m show ?thesis by simp
qed

lemma secant_loop_inside:
  "bracketed f a_n b_n \<Longrightarrow> secant_loop exact f N eps_y eps_x n a_n b_n p = Inr (Some r)
     \<Longrightarrow> a_n < r \<and> r < b_n"
proof (induction "Suc N - n" arbitrary: n a_n b_n p)
  case 0
  then show ?case by (subst (asm) secant_loop.simps) simp
next
  case (Suc k)
  note prems = Suc.prems
  show ?case
  proof (cases "secant_step exact f eps_y eps_x n a_n b_n p")
    case (Raise e)
    with prems(2) show ?thesis
      by (subst (asm) secant_loop.simps) (simp split: if_splits)
  next
    case (Return r')
    with prems(2) have "N < n \<and> Inr None = Inr (Some r) \<or> r' = Some r"
      by (subst (asm) secant_loop.simps) (simp split: if_splits)
    then have "r' = Some r" by simp
    with Return prems(1) show ?thesis
      using step_return_inside by blast
  next
    case (Continue a' b' p')
    with prems(2) have run: "\<not> N < n" "secant_loop exact f N eps_y eps_x (Suc n) a' b' p' = Inr (Some r)"
      by (subst (asm) secant_loop.simps, simp split: if_splits)+
    from step_continue_bracketed [OF prems(1) Continue]
    have br: "bracketed f a' b'" and le: "a_n \<le> a'" "b' \<le> b_n" by simp_all
    have "k = Suc N - Suc n" using Suc.hyps(2) by simp
    from Suc.hyps(1) [OF this br run(2)] le show ?thesis by simp
  qed
qed

lemma secant_inside:
  assumes "a < b" "secant exact f a b N eps_y eps_x = Inr (Some r)"
  shows "a < r \<and> r < b"
proof -
  from assms(2) obtain fa fb where "f a = Inr fa" "f b = Inr fb" "fa * fb < 0"
    and run: "secant_loop exact f N eps_y eps_x 1 a b None = Inr (Some r)"
    by (auto simp: secant_def exact_def split: sum.splits if_splits)
  then have "bracketed f a b" using assms(1) by (auto simp: bracketed_def)
  from secant_loop_inside [OF this run] show ?thesis .
qed


section \<open>The states a run goes through\<close>

text \<open>
  A run that reaches iteration \<open>n\<close> in some state ends as the loop does from that
  state.
\<close>

lemma secant_loop_done: "N < n \<Longrightarrow> secant_loop rnd f N eps_y eps_x n a_n b_n p = Inr None"
  by (subst secant_loop.simps) simp

lemma secant_state_run:
  "secant_state rnd f eps_y eps_x a b n = Some (a_n, b_n, p) \<Longrightarrow>
   secant rnd f a b N eps_y eps_x = secant_loop rnd f N eps_y eps_x n a_n b_n p"
proof (induction n arbitrary: a_n b_n p rule: secant_state.induct [of _ rnd f eps_y eps_x a b])
  case (1 rnd f eps_y eps_x a b)
  then show ?case by simp
next
  case (2 rnd f eps_y eps_x a b)
  then show ?case
    by (auto simp: secant_def split: sum.splits if_splits)
next
  case (3 rnd f eps_y eps_x a b n)
  from "3.prems" obtain a0 b0 p0
    where st: "secant_state rnd f eps_y eps_x a b (Suc n) = Some (a0, b0, p0)"
      and step: "secant_step rnd f eps_y eps_x (Suc n) a0 b0 p0 = Continue a_n b_n p"
    by (auto split: option.splits outcome.splits)
  have run: "secant rnd f a b N eps_y eps_x = secant_loop rnd f N eps_y eps_x (Suc n) a0 b0 p0"
    by (rule "3.IH" [OF st])
  show ?case
  proof (cases "Suc n \<le> N")
    case True
    then show ?thesis by (simp add: run secant_loop_unfold step)
  next
    case False
    then show ?thesis by (simp add: run secant_loop_done)
  qed
qed

text \<open>
  With an arithmetic that keeps signs, every state a run reaches has values of opposite
  signs at the ends of its bracket, and a checkpoint at which the objective is not zero.
\<close>

lemma sign_faithful_neg: "sign_faithful rnd \<Longrightarrow> rnd x < 0 \<longleftrightarrow> x < 0"
  by (simp add: sign_faithful_def)

lemma sign_faithful_zero: "sign_faithful rnd \<Longrightarrow> rnd x = 0 \<longleftrightarrow> x = 0"
  unfolding sign_faithful_def by (metis less_numeral_extra(3) linorder_neqE_linordered_idom)

lemma sign_faithful_nonneg: "sign_faithful rnd \<Longrightarrow> 0 \<le> rnd x \<longleftrightarrow> 0 \<le> x"
  using sign_faithful_neg [of rnd x] by (simp add: not_less [symmetric])

lemma sign_faithful_exact: "sign_faithful exact"
  by (simp add: sign_faithful_def exact_def)

lemma secant_step_invariant:
  assumes sf: "sign_faithful rnd"
    and inv: "\<exists>fa fb. f a_n = Inr fa \<and> f b_n = Inr fb \<and> fa * fb < 0" "checkpoint_ok f p"
    and step: "secant_step rnd f eps_y eps_x n a_n b_n p = Continue a' b' p'"
  shows "(\<exists>fa fb. f a' = Inr fa \<and> f b' = Inr fb \<and> fa * fb < 0) \<and> checkpoint_ok f p'"
proof -
  from inv obtain fa fb where fa: "f a_n = Inr fa" and fb: "f b_n = Inr fb" and sg: "fa * fb < 0"
    by blast
  define m where "m = secant_estimate rnd a_n b_n fa fb"
  from step obtain fm where fm: "f m = Inr fm"
    by (auto simp: secant_step_def fa fb Let_def m_def split: sum.splits if_splits)
  from step have cases: "(rnd (fa * fm) < 0 \<and> a' = a_n \<and> b' = m) \<or> (rnd (fb * fm) < 0 \<and> a' = m \<and> b' = b_n)"
    and p': "p' = p \<or> p' = Some m"
    by (auto simp: secant_step_def fa fb fm Let_def m_def [symmetric] split: if_splits)
  from cases have prod: "(fa * fm < 0 \<and> a' = a_n \<and> b' = m) \<or> (fb * fm < 0 \<and> a' = m \<and> b' = b_n)"
    by (simp add: sign_faithful_neg [OF sf])
  then have "fm \<noteq> 0" by auto
  then have "checkpoint_ok f p'"
    using p' inv(2) fm by (auto simp: checkpoint_ok_def)
  moreover have "\<exists>fa fb. f a' = Inr fa \<and> f b' = Inr fb \<and> fa * fb < 0"
    using prod fa fb fm by (auto simp: mult.commute)
  ultimately show ?thesis by simp
qed

lemma secant_state_invariant:
  "sign_faithful rnd \<Longrightarrow> secant_state rnd f eps_y eps_x a b n = Some (a_n, b_n, p) \<Longrightarrow>
   (\<exists>fa fb. f a_n = Inr fa \<and> f b_n = Inr fb \<and> fa * fb < 0) \<and> checkpoint_ok f p"
proof (induction n arbitrary: a_n b_n p rule: secant_state.induct [of _ rnd f eps_y eps_x a b])
  case (1 rnd f eps_y eps_x a b)
  then show ?case by simp
next
  case (2 rnd f eps_y eps_x a b)
  then show ?case
    by (auto simp: checkpoint_ok_def not_le sign_faithful_neg split: sum.splits if_splits)
next
  case (3 rnd f eps_y eps_x a b n)
  from "3.prems"(2) obtain a0 b0 p0
    where st: "secant_state rnd f eps_y eps_x a b (Suc n) = Some (a0, b0, p0)"
      and step: "secant_step rnd f eps_y eps_x (Suc n) a0 b0 p0 = Continue a_n b_n p"
    by (auto split: option.splits outcome.splits)
  from "3.IH" [OF "3.prems"(1) st]
  have "\<exists>fa fb. f a0 = Inr fa \<and> f b0 = Inr fb \<and> fa * fb < 0" "checkpoint_ok f p0"
    by simp_all
  from secant_step_invariant [OF "3.prems"(1) this step] show ?case .
qed


section \<open>Two objectives, one run\<close>

text \<open>
  Over exact arithmetic the solver reads the objective inside the bracket only, so two
  objectives that agree there give the same run.
\<close>

lemma secant_step_cong:
  assumes "bracketed f a_n b_n" and "\<forall>x. a_n \<le> x \<and> x \<le> b_n \<longrightarrow> f x = g x"
  shows "secant_step exact f eps_y eps_x n a_n b_n p = secant_step exact g eps_y eps_x n a_n b_n p"
proof -
  from assms(1) obtain fa fb where ab: "a_n < b_n" and fa: "f a_n = Inr fa"
    and fb: "f b_n = Inr fb" and sg: "fa * fb < 0"
    by (auto simp: bracketed_def)
  have ga: "g a_n = Inr fa" and gb: "g b_n = Inr fb"
    using assms(2) ab fa fb by (metis less_eq_real_def order_refl)+
  have "f (secant_estimate exact a_n b_n fa fb) = g (secant_estimate exact a_n b_n fa fb)"
    using estimate_inside [OF ab sg] assms(2) by (simp add: secant_estimate_exact)
  then show ?thesis
    by (simp add: secant_step_def fa fb ga gb Let_def)
qed

lemma secant_loop_cong:
  "bracketed f a_n b_n \<Longrightarrow> \<forall>x. a_n \<le> x \<and> x \<le> b_n \<longrightarrow> f x = g x \<Longrightarrow>
   secant_loop exact f N eps_y eps_x n a_n b_n p = secant_loop exact g N eps_y eps_x n a_n b_n p"
proof (induction "Suc N - n" arbitrary: n a_n b_n p)
  case 0
  then have "N < n" by simp
  then show ?case by (simp add: secant_loop.simps [of _ _ N])
next
  case (Suc k)
  then have n: "n \<le> N" by simp
  note st = secant_step_cong [OF Suc.prems, of eps_y eps_x n p]
  show ?case
  proof (cases "secant_step exact f eps_y eps_x n a_n b_n p")
    case (Continue a' b' p')
    from step_continue_bracketed [OF Suc.prems(1) Continue]
    have br: "bracketed f a' b'" and le: "a_n \<le> a'" "b' \<le> b_n" by simp_all
    have eq: "\<forall>x. a' \<le> x \<and> x \<le> b' \<longrightarrow> f x = g x"
      using Suc.prems(2) le by auto
    have "k = Suc N - Suc n" using Suc.hyps(2) by simp
    from Suc.hyps(1) [OF this br eq] show ?thesis
      using Continue st n by (simp add: secant_loop_unfold)
  qed (use st n in \<open>simp_all add: secant_loop_unfold\<close>)
qed

lemma secant_cong:
  assumes "a < b" and "\<forall>x. a \<le> x \<and> x \<le> b \<longrightarrow> f x = g x"
  shows "secant exact f a b N eps_y eps_x = secant exact g a b N eps_y eps_x"
proof -
  have ab: "f a = g a" "f b = g b" using assms by auto
  show ?thesis
  proof (cases "bracketed f a b")
    case True
    then show ?thesis
      using secant_loop_cong [OF True assms(2)] ab
      by (auto simp: secant_def split: sum.splits)
  next
    case False
    then show ?thesis
      using ab assms(1) by (auto simp: secant_def bracketed_def exact_def not_less split: sum.splits)
  qed
qed

section \<open>A rescaled objective\<close>

text \<open>
  Multiplying the objective by a positive constant \<open>c\<close> changes the run as dividing
  the tolerance on the value by \<open>c\<close> does, in every arithmetic whose rounding commutes
  with the multiplication by \<open>c\<close>.
\<close>

lemma secant_estimate_scaled:
  assumes "c \<noteq> 0" and h: "\<And>x. rnd (c * x) = c * rnd x"
  shows "secant_estimate rnd a_n b_n (c * fa) (c * fb) = secant_estimate rnd a_n b_n fa fb"
proof -
  have 1: "rnd (c * fa * rnd (b_n - a_n)) = c * rnd (fa * rnd (b_n - a_n))"
    by (simp only: mult.assoc h)
  have 2: "rnd (c * fb - c * fa) = c * rnd (fb - fa)"
    by (simp only: right_diff_distrib [symmetric] h)
  have 3: "c * u / (c * v) = u / v" for u v :: real
    using assms(1) by simp
  show ?thesis
    by (simp only: secant_estimate_def 1 2 3)
qed

lemma secant_step_scaled:
  assumes "0 < c" and h: "\<And>x. rnd (c * x) = c * rnd x"
  shows "secant_step rnd (\<lambda>r. map_sum id ((*) c) (f r)) eps_y eps_x n a_n b_n p =
     secant_step rnd f (eps_y / c) eps_x n a_n b_n p"
proof (cases "f a_n")
  case (Inl e)
  then show ?thesis by (simp add: secant_step_def)
next
  case fa: (Inr fa)
  show ?thesis
  proof (cases "f b_n")
    case (Inl e)
    then show ?thesis by (simp add: secant_step_def fa)
  next
    case fb: (Inr fb)
    have nz: "c \<noteq> 0" using assms(1) by simp
    have d: "rnd (c * fb - c * fa) = c * rnd (fb - fa)"
      by (simp only: right_diff_distrib [symmetric] h)
    have den: "rnd (c * fb - c * fa) = 0 \<longleftrightarrow> rnd (fb - fa) = 0"
      using nz by (simp add: d)
    have est: "secant_estimate rnd a_n b_n (c * fa) (c * fb) = secant_estimate rnd a_n b_n fa fb"
      by (rule secant_estimate_scaled, rule nz, rule h)
    have pr: "rnd (c * u * (c * v)) = c * (c * rnd (u * v))" for u v
    proof -
      have "c * u * (c * v) = c * (c * (u * v))" by simp
      then show ?thesis by (simp only: h)
    qed
    have sg: "rnd (c * u * (c * v)) < 0 \<longleftrightarrow> rnd (u * v) < 0" for u v
    proof -
      have pos: "0 < c * c" using assms(1) by simp
      have "c * (c * rnd (u * v)) < 0 \<longleftrightarrow> (c * c) * rnd (u * v) < (c * c) * 0"
        by (simp add: mult_ac)
      also have "\<dots> \<longleftrightarrow> rnd (u * v) < 0"
        by (rule mult_less_cancel_left_pos [OF pos])
      finally show ?thesis by (simp only: pr)
    qed
    have ab: "\<bar>c * v\<bar> < eps_y \<longleftrightarrow> \<bar>v\<bar> < eps_y / c" for v
      using assms(1) by (simp add: abs_mult pos_less_divide_eq mult.commute)
    show ?thesis
    proof (cases "rnd (fb - fa) = 0")
      case True
      then show ?thesis using den by (simp add: secant_step_def fa fb)
    next
      case False
      then have "rnd (c * fb - c * fa) \<noteq> 0" using den by simp
      with False show ?thesis
        by (cases "f (secant_estimate rnd a_n b_n fa fb)")
          (simp_all add: secant_step_def fa fb est Let_def sg ab)
    qed
  qed
qed

lemma secant_loop_scaled:
  assumes "0 < c" and h: "\<And>x. rnd (c * x) = c * rnd x"
  shows "secant_loop rnd (\<lambda>r. map_sum id ((*) c) (f r)) N eps_y eps_x n a_n b_n p =
     secant_loop rnd f N (eps_y / c) eps_x n a_n b_n p"
proof (induction "Suc N - n" arbitrary: n a_n b_n p)
  case 0
  then have "N < n" by simp
  then show ?case by (simp add: secant_loop_done)
next
  case (Suc k)
  then have n: "n \<le> N" by simp
  have "k = Suc N - Suc n" using Suc.hyps(2) by simp
  note IH = Suc.hyps(1) [OF this]
  have st: "secant_step rnd (\<lambda>r. map_sum id ((*) c) (f r)) eps_y eps_x n a_n b_n p =
      secant_step rnd f (eps_y / c) eps_x n a_n b_n p"
    by (rule secant_step_scaled, rule assms(1), rule h)
  show ?case
    by (cases "secant_step rnd f (eps_y / c) eps_x n a_n b_n p")
      (simp_all add: secant_loop_unfold [OF n] st IH)
qed

lemma secant_scaled:
  assumes "0 < c" and h: "\<And>x. rnd (c * x) = c * rnd x"
  shows "secant rnd (\<lambda>r. map_sum id ((*) c) (f r)) a b N eps_y eps_x =
     secant rnd f a b N (eps_y / c) eps_x"
proof -
  have sg: "0 \<le> rnd (c * u * (c * v)) \<longleftrightarrow> 0 \<le> rnd (u * v)" for u v
  proof -
    have pos: "0 < c * c" using assms(1) by simp
    have "c * u * (c * v) = c * (c * (u * v))" by simp
    then have "rnd (c * u * (c * v)) = (c * c) * rnd (u * v)"
      by (simp only: h mult.assoc)
    moreover have "(c * c) * 0 \<le> (c * c) * rnd (u * v) \<longleftrightarrow> 0 \<le> rnd (u * v)"
      by (rule mult_le_cancel_left_pos [OF pos])
    ultimately show ?thesis by simp
  qed
  have lp: "secant_loop rnd (\<lambda>r. map_sum id ((*) c) (f r)) N eps_y eps_x n a b None =
      secant_loop rnd f N (eps_y / c) eps_x n a b None" for n
    by (rule secant_loop_scaled, rule assms(1), rule h)
  show ?thesis
    by (cases "f a"; cases "f b") (simp_all add: secant_def sg lp)
qed

section \<open>The net present value over exact arithmetic\<close>

text \<open>
  For a rate above \<open>-1\<close> the running product \<open>last_raised\<close> is the power of
  \<open>rate + 1\<close> to the current year fraction, so the loop adds up the discounted amounts.
\<close>

lemma float_pow_exact_pos: "0 < x \<Longrightarrow> float_pow exact x y = Inr (x powr y)"
  by (auto simp: float_pow_def exact_def)

lemma xnpv_loop_exact:
  "0 < rp \<Longrightarrow> lr = rp powr lp \<Longrightarrow>
   xnpv_loop exact rp t0 dd items x lp lr =
     Inr (x + (\<Sum>item\<leftarrow>items. snd item / rp powr (real_of_int (fst item - t0) / 365)))"
proof (induction items arbitrary: x lp lr)
  case Nil
  then show ?case by simp
next
  case (Cons item rest)
  define np where "np = real_of_int (fst item - t0) / 365"
  have pw: "rp powr (np - lp) * rp powr lp = rp powr np"
    by (simp add: powr_add [symmetric])
  have nz: "rp powr np \<noteq> 0"
    using Cons.prems(1) by simp
  have "xnpv_loop exact rp t0 dd (item # rest) x lp lr =
          xnpv_loop exact rp t0 dd rest (x + snd item / rp powr np) np (rp powr np)"
    using Cons.prems nz
    by (simp add: float_pow_exact_pos Let_def np_def [symmetric] exact_def pw del: of_int_diff)
  also have "\<dots> = Inr (x + snd item / rp powr np +
      (\<Sum>item\<leftarrow>rest. snd item / rp powr (real_of_int (fst item - t0) / 365)))"
    by (rule Cons.IH [OF Cons.prems(1) refl])
  finally show ?case
    by (simp add: np_def add.assoc)
qed

lemma xnpv_exact:
  assumes "- 1 < rate" "cash_flow = item0 # rest"
  shows "xnpv exact rate cash_flow True dd =
     Inr (\<Sum>item\<leftarrow>cash_flow. snd item / (rate + 1) powr (real_of_int (fst item - fst item0) / 365))"
  using assms by (simp add: xnpv_def xnpv_loop_exact exact_def del: xnpv_loop.simps)

lemma xnpv_two_exact:
  "- 1 < r \<Longrightarrow> xnpv exact r [(0, a0), (365, a1)] sorted' dd = Inr (a0 + a1 / (r + 1))"
  by (simp add: xnpv_def float_pow_def exact_def Let_def)

lemma xnpv_single: "xnpv exact r [(0, a)] True True = Inr a"
  by (simp add: xnpv_def float_pow_def exact_def)

text \<open>
  The day offsets: what \<open>xirr\<close> hands to the evaluator, and what the evaluator makes
  of the dates themselves.
\<close>

lemma xnpv_loop_shift:
  "xnpv_loop rnd rp 0 dd (map (\<lambda>(dt, amount). (dt - t0, amount)) items) x lp lr =
   xnpv_loop rnd rp t0 dd' items x lp lr"
  by (induction items arbitrary: x lp lr) (auto simp: Let_def split: sum.splits prod.splits)

lemma day_offsets_Inr:
  "day_offsets rnd cash_flow = Inr cfd \<Longrightarrow>
   \<exists>t0 a0 rest. sort_key fst (map (\<lambda>(dt, amount). (dt, rnd amount)) cash_flow) = (t0, a0) # rest \<and>
      cfd = map (\<lambda>(dt, amount). (dt - t0, amount)) ((t0, a0) # rest)"
  by (auto simp: day_offsets_def Let_def split: list.splits prod.splits)

lemma xnpv_day_offsets:
  assumes "day_offsets rnd cash_flow = Inr cfd"
    and "map (\<lambda>(dt, amount). (dt, rnd amount)) cash_flow = cash_flow"
  shows "xnpv rnd r cfd True True = xnpv rnd r cash_flow False dd"
proof -
  from day_offsets_Inr [OF assms(1)] assms(2) obtain t0 a0 rest
    where s: "sort_key fst cash_flow = (t0, a0) # rest"
      and c: "cfd = map (\<lambda>(dt, amount). (dt - t0, amount)) ((t0, a0) # rest)"
    by auto
  have "xnpv rnd r cfd True True =
      xnpv_loop rnd (rnd (r + 1)) 0 True (map (\<lambda>(dt, amount). (dt - t0, amount)) ((t0, a0) # rest)) 0 0 1"
    unfolding c by (simp add: xnpv_def del: xnpv_loop.simps)
  also have "\<dots> = xnpv_loop rnd (rnd (r + 1)) t0 dd ((t0, a0) # rest) 0 0 1"
    by (rule xnpv_loop_shift)
  also have "\<dots> = xnpv rnd r cash_flow False dd"
    by (simp add: xnpv_def s del: xnpv_loop.simps)
  finally show ?thesis .
qed

lemma day_offsets_single: "day_offsets exact [(d, a)] = Inr [(0, a)]"
  by (simp add: day_offsets_def exact_def)

lemma day_offsets_two: "day_offsets exact [(0, a0), (365, a1)] = Inr [(0, a0), (365, a1)]"
  by (simp add: day_offsets_def exact_def)

lemma xirr_exact_unfold:
  "day_offsets exact cash_flow = Inr cfd \<Longrightarrow>
   xirr exact cash_flow g s =
     (case secant exact (\<lambda>r. xnpv exact r cfd True True) 0 10 2000 (1 / 10 ^ 6) (1 / 10 ^ 6) of
        Inl ConvergenceFailed \<Rightarrow> (if s then Inr None else Inl ConvergenceFailed)
      | r \<Rightarrow> r)"
  by (simp add: xirr_def xirr_solve_def exact_def)

lemma sum_list_sort_key: "sum_list (map h (sort_key k xs)) = sum_list (map h (xs :: 'a list) :: real list)"
proof -
  have "sum_mset (image_mset h (mset (sort_key k xs))) = sum_mset (image_mset h (mset xs))"
    by simp
  then show ?thesis
    by (metis mset_map sum_mset_sum_list)
qed


section \<open>Reordered and rescaled series\<close>

lemma sorted_hd_Min:
  "sorted xs \<Longrightarrow> xs \<noteq> [] \<Longrightarrow> hd xs = Min (set (xs :: int list))"
  by (cases xs) (auto intro!: Min_eqI [symmetric])

lemma day_offsets_mset:
  assumes "mset cash_flow' = mset cash_flow" "cash_flow \<noteq> []"
  shows "\<exists>cfd' cfd i' r' i r. day_offsets exact cash_flow' = Inr cfd' \<and> day_offsets exact cash_flow = Inr cfd \<and>
      mset cfd' = mset cfd \<and> cfd' = i' # r' \<and> cfd = i # r \<and> fst i' = 0 \<and> fst i = 0"
proof -
  define s where "s = sort_key fst cash_flow"
  define s' where "s' = sort_key fst cash_flow'"
  have idm: "map (\<lambda>(dt, amount). (dt, exact amount)) xs = xs" for xs :: cash_flows
    by (induction xs) (auto simp: exact_def)
  have ms: "mset s' = mset s" using assms(1) by (simp add: s_def s'_def)
  have "mset s = mset cash_flow" by (simp add: s_def)
  then have "s \<noteq> []" using assms(2) by (metis mset_zero_iff)
  then have ne: "s \<noteq> []" "s' \<noteq> []"
    using ms by (metis mset_zero_iff)+
  have "hd (map fst s) = Min (set (map fst s))" "hd (map fst s') = Min (set (map fst s'))"
    using ne by (intro sorted_hd_Min; simp add: s_def s'_def)+
  moreover have "set (map fst s') = set (map fst s)"
    using ms by (metis mset_map set_mset_mset)
  ultimately have hd: "fst (hd s') = fst (hd s)"
    using ne by (simp add: hd_map)
  obtain t0 a0 rest where s: "s = (t0, a0) # rest" using ne by (cases s) auto
  obtain t0' a0' rest' where s': "s' = (t0', a0') # rest'" using ne by (cases s') auto
  have t: "t0' = t0" using hd s s' by simp
  have "day_offsets exact cash_flow = Inr (map (\<lambda>(dt, amount). (dt - t0, amount)) s)"
    by (simp add: day_offsets_def idm s_def [symmetric]) (simp add: s)
  moreover have "day_offsets exact cash_flow' = Inr (map (\<lambda>(dt, amount). (dt - t0, amount)) s')"
    by (simp add: day_offsets_def idm s'_def [symmetric]) (simp add: s' t)
  moreover have "mset (map (\<lambda>(dt, amount). (dt - t0, amount)) s')
      = mset (map (\<lambda>(dt, amount). (dt - t0, amount)) s)"
    using ms by (metis mset_map)
  ultimately show ?thesis
    by (simp add: s s' t)
qed

lemma sum_list_mset_cong:
  "mset xs = mset ys \<Longrightarrow> sum_list (map h xs) = sum_list (map h (ys :: 'a list) :: real list)"
  by (metis mset_map sum_mset_sum_list)

lemma insort_key_map_same_key:
  assumes "\<And>y. k (h y) = k y"
  shows "insort_key k (h x) (map h ys) = map h (insort_key k x ys)"
  by (induction ys) (simp_all add: assms)

lemma sort_key_map_same_key:
  assumes "\<And>y. k (h y) = k y"
  shows "sort_key k (map h xs) = map h (sort_key k xs)"
  by (induction xs) (simp_all add: insort_key_map_same_key assms)

lemma xnpv_loop_scaled:
  assumes h: "\<And>x. rnd (c * x) = c * rnd x"
  shows "xnpv_loop rnd rp t0 dd (map (\<lambda>(d, a). (d, c * a)) items) (c * x) lp lr =
     map_sum id ((*) c) (xnpv_loop rnd rp t0 dd items x lp lr)"
proof (induction items arbitrary: x lp lr)
  case Nil
  then show ?case by simp
next
  case (Cons item rest)
  obtain d a where item: "item = (d, a)" by (cases item)
  have lin: "rnd (c * x + rnd (c * a / q)) = c * rnd (x + rnd (a / q))" for q
  proof -
    have "c * a / q = c * (a / q)" by simp
    then have "rnd (c * a / q) = c * rnd (a / q)" by (simp only: h)
    then show ?thesis
      by (simp only: distrib_left [symmetric] h)
  qed
  show ?case
    by (simp add: item Let_def lin Cons.IH split: sum.splits)
qed

lemma xnpv_scaled:
  assumes h: "\<And>x. rnd (c * x) = c * rnd x"
  shows "xnpv rnd r (map (\<lambda>(d, a). (d, c * a)) cash_flow) True dd =
     map_sum id ((*) c) (xnpv rnd r cash_flow True dd)"
proof (cases cash_flow)
  case Nil
  then show ?thesis by (simp add: xnpv_def)
next
  case (Cons item rest)
  obtain d a where item: "item = (d, a)" by (cases item)
  have "xnpv rnd r (map (\<lambda>(d, a). (d, c * a)) cash_flow) True dd =
      xnpv_loop rnd (rnd (r + 1)) d dd (map (\<lambda>(d, a). (d, c * a)) cash_flow) (c * 0) 0 1"
    by (simp add: xnpv_def Cons item del: xnpv_loop.simps)
  also have "\<dots> = map_sum id ((*) c) (xnpv_loop rnd (rnd (r + 1)) d dd cash_flow 0 0 1)"
    by (rule xnpv_loop_scaled) (rule h)
  also have "\<dots> = map_sum id ((*) c) (xnpv rnd r cash_flow True dd)"
    by (simp add: xnpv_def Cons item del: xnpv_loop.simps)
  finally show ?thesis .
qed

lemma day_offsets_scaled:
  assumes h: "\<And>x. rnd (c * x) = c * rnd x"
    and "day_offsets rnd cash_flow = Inr cfd"
  shows "day_offsets rnd (map (\<lambda>(d, a). (d, c * a)) cash_flow) = Inr (map (\<lambda>(d, a). (d, c * a)) cfd)"
proof -
  have cm: "map (\<lambda>(dt, amount). (dt, rnd amount)) (map (\<lambda>(d, a). (d, c * a)) xs)
      = map (\<lambda>(d, a). (d, c * a)) (map (\<lambda>(dt, amount). (dt, rnd amount)) xs)" for xs :: cash_flows
    by (induction xs) (auto simp: h)
  have srt: "sort_key fst (map (\<lambda>(d, a). (d, c * a)) xs)
      = map (\<lambda>(d, a). (d, c * a)) (sort_key fst xs)" for xs :: cash_flows
    by (rule sort_key_map_same_key) auto
  from day_offsets_Inr [OF assms(2)] obtain t0 a0 rest
    where s: "sort_key fst (map (\<lambda>(dt, amount). (dt, rnd amount)) cash_flow) = (t0, a0) # rest"
      and c: "cfd = map (\<lambda>(dt, amount). (dt - t0, amount)) ((t0, a0) # rest)"
    by auto
  show ?thesis
    unfolding day_offsets_def cm srt s Let_def c
    by (simp add: comp_def case_prod_unfold)
qed

lemma xirr_unfold:
  "day_offsets rnd cash_flow = Inr cfd \<Longrightarrow>
   xirr rnd cash_flow g s =
     (case secant rnd (\<lambda>r. xnpv rnd r cfd True True) 0 10 2000 (rnd (1 / 10 ^ 6)) (rnd (1 / 10 ^ 6)) of
        Inl ConvergenceFailed \<Rightarrow> (if s then Inr None else Inl ConvergenceFailed)
      | r \<Rightarrow> r)"
  by (simp add: xirr_def xirr_solve_def)

text \<open>
  Python's sort is stable: two series with the same entries, whose entries of each date
  come in the same order, are sorted to the same list.
\<close>

lemma sort_key_same_ties:
  assumes "mset xs = mset ys"
    and "\<forall>k. filter (\<lambda>x. f x = k) xs = filter (\<lambda>x. f x = k) ys"
  shows "sort_key f xs = sort_key f ys"
proof (rule properties_for_sort_key)
  show "mset (sort_key f ys) = mset xs"
    using assms(1) by simp
  show "sorted (map f (sort_key f ys))"
    by simp
  fix k
  have "filter (\<lambda>x. f k = f x) (sort_key f ys) = filter (\<lambda>x. f x = f k) (sort_key f ys)"
    by (rule filter_cong) auto
  also have "\<dots> = filter (\<lambda>x. f x = f k) ys"
    by (rule sort_key_stable)
  also have "\<dots> = filter (\<lambda>x. f x = f k) xs"
    using assms(2) by simp
  also have "\<dots> = filter (\<lambda>x. f k = f x) xs"
    by (rule filter_cong) auto
  finally show "filter (\<lambda>x. f k = f x) (sort_key f ys) = filter (\<lambda>x. f k = f x) xs" .
qed

lemma sort_key_distinct_keys:
  assumes "mset xs = mset ys" and "distinct (map f ys)"
  shows "sort_key f xs = sort_key f ys"
proof (rule sort_key_inj_key_eq)
  show "mset xs = mset (sort_key f ys)"
    using assms(1) by simp
  have "mset (map f xs) = mset (map f ys)"
    using assms(1) by simp
  then have "distinct (map f xs)"
    using assms(2) by (metis mset_eq_imp_distinct_iff)
  then show "inj_on f (set xs)"
    by (simp add: distinct_map)
  show "sorted (map f (sort_key f ys))"
    by simp
qed

lemma day_offsets_sorted:
  assumes "sort_key fst cash_flow' = sort_key fst cash_flow"
  shows "day_offsets rnd cash_flow' = day_offsets rnd cash_flow"
proof -
  have "sort_key fst (map (\<lambda>(dt, amount). (dt, rnd amount)) xs)
      = map (\<lambda>(dt, amount). (dt, rnd amount)) (sort_key fst xs)" for xs :: cash_flows
    by (rule sort_key_map_same_key) auto
  then show ?thesis
    by (simp only: day_offsets_def assms)
qed

lemma xirr_sorted:
  assumes "sort_key fst cash_flow' = sort_key fst cash_flow"
  shows "xirr rnd cash_flow' guess silent = xirr rnd cash_flow guess silent"
  by (simp only: xirr_def xirr_solve_def day_offsets_sorted [OF assms])

lemma xirr_exact_permutation:
  assumes "mset cash_flow' = mset cash_flow"
  shows "xirr exact cash_flow' guess silent = xirr exact cash_flow guess silent"
proof (cases "cash_flow = []")
  case True
  with assms show ?thesis by simp
next
  case False
  from day_offsets_mset [OF assms False] obtain cfd' cfd i' r' i r
    where d': "day_offsets exact cash_flow' = Inr cfd'" and d: "day_offsets exact cash_flow = Inr cfd"
      and ms: "mset cfd' = mset cfd" and c': "cfd' = i' # r'" and c: "cfd = i # r"
      and z: "fst i' = 0" "fst i = 0"
    by blast
  have "xnpv exact x cfd' True True = xnpv exact x cfd True True" if "0 \<le> x" for x
  proof -
    have x: "- 1 < x" using that by simp
    show ?thesis
      unfolding xnpv_exact [OF x c'] xnpv_exact [OF x c] z
      by (simp only: sum_list_mset_cong [OF ms])
  qed
  then have "secant exact (\<lambda>r. xnpv exact r cfd' True True) 0 10 2000 (1 / 10 ^ 6) (1 / 10 ^ 6) =
      secant exact (\<lambda>r. xnpv exact r cfd True True) 0 10 2000 (1 / 10 ^ 6) (1 / 10 ^ 6)"
    by (intro secant_cong) auto
  then show ?thesis
    by (simp only: xirr_exact_unfold [OF d'] xirr_exact_unfold [OF d])
qed

text \<open>
  At rate 0 every discount factor is 1, and the evaluator adds up the amounts in the
  order it reads them.
\<close>

lemma xnpv_loop_rate_zero:
  assumes "rnd 1 = 1"
  shows "xnpv_loop rnd 1 t0 dd items x lp 1 =
     Inr (foldl (\<lambda>x item. rnd (x + rnd (snd item))) x items)"
proof (induction items arbitrary: x lp)
  case Nil
  show ?case by simp
next
  case (Cons item rest)
  have pw: "float_pow rnd 1 y = Inr 1" for y
    by (simp add: float_pow_def)
  show ?case
    by (simp add: pw assms Let_def Cons.IH)
qed

lemma xnpv_rounded_rate_zero:
  assumes "cash_flow \<noteq> []" and "rnd 1 = 1"
  shows "xnpv rnd 0 cash_flow sorted' already_day_diffs =
     Inr (foldl (\<lambda>x item. rnd (x + rnd (snd item))) 0
            (if sorted' then cash_flow else sort_key fst cash_flow))"
proof -
  define cf where "cf = (if sorted' then cash_flow else sort_key fst cash_flow)"
  have "length cf = length cash_flow" by (simp add: cf_def)
  then have "cf \<noteq> []" using assms(1) by auto
  then obtain item0 rest where cf: "cf = item0 # rest" by (cases cf) auto
  have "xnpv rnd 0 cash_flow sorted' already_day_diffs =
      xnpv_loop rnd 1 (fst item0) already_day_diffs cf 0 0 1"
    using cf unfolding cf_def
    by (cases sorted') (simp_all add: xnpv_def assms(2) del: xnpv_loop.simps)
  also have "\<dots> = Inr (foldl (\<lambda>x item. rnd (x + rnd (snd item))) 0 cf)"
    by (rule xnpv_loop_rate_zero) (rule assms(2))
  finally show ?thesis
    by (simp only: cf_def)
qed

lemma xnpv_exact_rate_zero:
  assumes "cash_flow \<noteq> []"
  shows "xnpv exact 0 cash_flow sorted' already_day_diffs = Inr (sum_list (map snd cash_flow))"
proof -
  define cf where "cf = (if \<not> sorted' then sort_key fst cash_flow else cash_flow)"
  have "length cf = length cash_flow" by (simp add: cf_def)
  then have ne: "cf \<noteq> []" using assms by auto
  then obtain item0 rest where cf: "cf = item0 # rest" by (cases cf) auto
  have "xnpv exact 0 cash_flow sorted' already_day_diffs = xnpv exact 0 cf True already_day_diffs"
    by (simp add: xnpv_def cf_def)
  also have "\<dots> = Inr (sum_list (map snd cf))"
    using xnpv_exact [of 0 cf item0 rest already_day_diffs] cf by simp
  also have "sum_list (map snd cf) = sum_list (map snd cash_flow)"
    by (simp add: cf_def sum_list_sort_key)
  finally show ?thesis .
qed

text \<open>
  A series of one entry.
\<close>

lemma xnpv_single_rounded:
  assumes "rnd 0 = 0" "rnd 1 = 1" "rnd (rnd a) = rnd a"
  shows "xnpv rnd r [(0, rnd a)] True True = Inr (rnd a)"
proof -
  have pw: "float_pow rnd rp 0 = Inr 1" for rp
    by (simp add: float_pow_def)
  show ?thesis
    by (simp add: xnpv_def Let_def assms pw)
qed

lemma day_offsets_single_rounded: "day_offsets rnd [(d, a)] = Inr [(0, rnd a)]"
  by (simp add: day_offsets_def)

section \<open>Two runs of the orchestrator\<close>

text \<open>
  A series of two entries a year apart, with amounts so small that the first secant
  estimate already meets the tolerance on the value: \<open>xirr\<close> returns \<open>11 / 3\<close>. The same
  series with amounts \<open>-1\<close> and \<open>3 / 2\<close> goes on to a second iteration with the bracket
  cut at \<open>11 / 3\<close>, and returns something else.
\<close>

lemma step_small:
  "secant_step exact (\<lambda>r. xnpv exact r [(0, - (1 / 2 ^ 30)), (365, 3 / 2 ^ 31)] True True)
      (1 / 10 ^ 6) (1 / 10 ^ 6) 1 0 10 None = Return (Some (11 / 3))"
  by (simp add: secant_step_def xnpv_two_exact secant_estimate_exact Let_def exact_def)

lemma secant_small:
  "secant exact (\<lambda>r. xnpv exact r [(0, - (1 / 2 ^ 30)), (365, 3 / 2 ^ 31)] True True)
      0 10 2000 (1 / 10 ^ 6) (1 / 10 ^ 6) = Inr (Some (11 / 3))"
  by (subst secant_enter [where fa = "1 / 2 ^ 31" and fb = "- (19 / (11 * 2 ^ 31))"],
      simp add: xnpv_two_exact, simp add: xnpv_two_exact, simp add: exact_def,
      subst secant_loop_unfold, simp, subst step_small, simp)

lemma xirr_small_amounts:
  "xirr exact [(0, - (1 / 2 ^ 30)), (365, 3 / 2 ^ 31)] g s = Inr (Some (11 / 3))"
  by (subst xirr_exact_unfold [OF day_offsets_two], subst secant_small, simp)

lemma step_unit:
  "secant_step exact (\<lambda>r. xnpv exact r [(0, - 1), (365, 3 / 2)] True True)
      (1 / 10 ^ 6) (1 / 10 ^ 6) 1 0 10 None = Continue 0 (11 / 3) None"
  by (simp add: secant_step_def xnpv_two_exact secant_estimate_exact Let_def exact_def)

lemma secant_unit:
  "secant exact (\<lambda>r. xnpv exact r [(0, - 1), (365, 3 / 2)] True True)
      0 10 2000 (1 / 10 ^ 6) (1 / 10 ^ 6) \<noteq> Inr (Some (11 / 3))"
proof
  let ?f = "\<lambda>r. xnpv exact r [(0, - 1), (365, 3 / 2)] True True"
  assume "secant exact ?f 0 10 2000 (1 / 10 ^ 6) (1 / 10 ^ 6) = Inr (Some (11 / 3))"
  then have run: "secant_loop exact ?f 2000 (1 / 10 ^ 6) (1 / 10 ^ 6) (Suc 1) 0 (11 / 3) None
      = Inr (Some (11 / 3))"
    by (subst (asm) secant_enter [where fa = "1 / 2" and fb = "- (19 / 22)"],
      simp add: xnpv_two_exact, simp add: xnpv_two_exact, simp add: exact_def,
      subst (asm) secant_loop_unfold, simp, subst (asm) step_unit, simp)
  have "bracketed ?f 0 (11 / 3)"
    unfolding bracketed_def
    by (rule conjI, simp, rule exI [of _ "1 / 2"], rule exI [of _ "- (19 / 28)"])
      (simp add: xnpv_two_exact)
  from secant_loop_inside [OF this run] show False by simp
qed

lemma xirr_unit_amounts:
  "xirr exact [(0, - 1), (365, 3 / 2)] g s \<noteq> Inr (Some (11 / 3))"
  using secant_unit
  by (subst xirr_exact_unfold [OF day_offsets_two]) (auto split: sum.splits error.splits)


section \<open>Rounding to binary64\<close>

text \<open>
  How \<open>rnd53\<close> is evaluated: once the binary exponent of the argument is known, the
  result is the rounded significand times the power of two.
\<close>

lemma round_half_even_of_int: "round_half_even (of_int m) = m"
  by (simp add: round_half_even_def)

lemma floor_log2_eq:
  assumes "2 powi k \<le> x" "x < 2 powi (k + 1)"
  shows "\<lfloor>log 2 x\<rfloor> = k"
proof -
  have pos: "0 < x"
    using assms(1) by (rule less_le_trans [rotated]) simp
  have a: "2 powr real_of_int k = (2 :: real) powi k"
    by (rule powr_real_of_int') simp_all
  have b: "2 powr (real_of_int k + 1) = (2 :: real) powi (k + 1)"
    using powr_real_of_int' [of "2 :: real" "k + 1"] by simp
  show ?thesis
    using floor_log_eq_powr_iff [of x 2 k] pos assms by (simp add: a b)
qed

lemma rnd53_eval:
  assumes "2 powi (e + 52) \<le> \<bar>x\<bar>" "\<bar>x\<bar> < 2 powi (e + 53)"
  shows "rnd53 x = of_int (round_half_even (x / 2 powi e)) * 2 powi e"
proof -
  have "0 < \<bar>x\<bar>"
    using assms(1) by (rule less_le_trans [rotated]) simp
  then have nz: "x \<noteq> 0" by simp
  have "\<lfloor>log 2 \<bar>x\<bar>\<rfloor> = e + 52"
    using assms by (intro floor_log2_eq) (simp_all add: add.assoc)
  then show ?thesis
    using nz by (simp add: rnd53_def)
qed

lemma rnd53_zero: "rnd53 0 = 0"
  by (simp add: rnd53_def)

text \<open>
  An integer below \<open>2 ^ 53\<close> in absolute value, times a power of two, is a float:
  rounding leaves it as it is.
\<close>

lemma nat_between_powers:
  assumes "0 < (n :: nat)"
  shows "\<exists>k. 2 ^ k \<le> n \<and> n < 2 ^ Suc k"
  using assms
proof (induction n rule: less_induct)
  case (less n)
  show ?case
  proof (cases "n = 1")
    case True
    then show ?thesis by (intro exI [of _ 0]) simp
  next
    case False
    with less.prems have "0 < n div 2" "n div 2 < n" by auto
    from less.IH [OF this(2) this(1)] obtain k where "2 ^ k \<le> n div 2" "n div 2 < 2 ^ Suc k"
      by blast
    then have "2 ^ Suc k \<le> n \<and> n < 2 ^ Suc (Suc k)" by auto
    then show ?thesis by blast
  qed
qed

lemma rnd53_float:
  assumes "\<bar>m\<bar> < 2 ^ 53"
  shows "rnd53 (of_int m * 2 powi e) = of_int m * 2 powi e"
proof (cases "m = 0")
  case True
  then show ?thesis by (simp add: rnd53_zero)
next
  case False
  then have "0 < nat \<bar>m\<bar>" by simp
  from nat_between_powers [OF this] obtain k where k: "2 ^ k \<le> nat \<bar>m\<bar>" "nat \<bar>m\<bar> < 2 ^ Suc k"
    by blast
  then have ki: "2 ^ k \<le> \<bar>m\<bar>" "\<bar>m\<bar> < 2 ^ Suc k"
    by (simp_all add: le_nat_iff nat_less_iff)
  have "(2 :: int) ^ k < 2 ^ 53" using ki(1) assms by simp
  then have "k < 53" by (rule power_less_imp_less_exp [rotated]) simp
  then have k52: "k \<le> 52" by simp
  define E where "E = e + int k - 52"
  have kr: "(2 :: real) ^ k \<le> \<bar>of_int m\<bar>" "\<bar>of_int m :: real\<bar> < 2 ^ Suc k"
    using ki by (metis of_int_abs of_int_le_iff of_int_numeral of_int_power,
      metis of_int_abs of_int_less_iff of_int_numeral of_int_power)
  have p: "(2 :: real) powi (E + 52) = 2 ^ k * 2 powi e" "(2 :: real) powi (E + 53) = 2 ^ Suc k * 2 powi e"
    by (simp_all add: E_def power_int_add add.commute)
  have lo: "2 powi (E + 52) \<le> \<bar>of_int m * 2 powi e :: real\<bar>"
    unfolding p using kr(1) by (simp add: abs_mult mult_right_mono)
  have hi: "\<bar>of_int m * 2 powi e :: real\<bar> < 2 powi (E + 53)"
    unfolding p using kr(2) by (simp add: abs_mult del: power_Suc)
  have "of_int m * 2 powi e / 2 powi E = (of_int m * 2 powi (e - E) :: real)"
    by (simp add: power_int_diff)
  also have "e - E = int (52 - k)"
    using k52 by (simp add: E_def)
  also have "(of_int m * 2 powi int (52 - k) :: real) = of_int (m * 2 ^ (52 - k))"
    by simp
  finally have q: "of_int m * 2 powi e / 2 powi E = (of_int (m * 2 ^ (52 - k)) :: real)" .
  have "rnd53 (of_int m * 2 powi e) = of_int (m * 2 ^ (52 - k)) * 2 powi E"
    unfolding rnd53_eval [OF lo hi] q round_half_even_of_int ..
  also have "\<dots> = of_int m * (2 powi int (52 - k) * 2 powi E)"
    by simp
  also have "2 powi int (52 - k) * 2 powi E = (2 :: real) powi e"
    using k52 by (simp add: E_def power_int_add [symmetric] del: power_int_of_nat)
  finally show ?thesis .
qed

lemma rnd53_power2: "rnd53 (2 ^ k) = 2 ^ k"
  using rnd53_float [of 1 "int k"] by simp

lemma rnd53_neg_power2: "rnd53 (- (2 ^ k)) = - (2 ^ k)"
  using rnd53_float [of "- 1" "int k"] by simp

lemma rnd53_int: "\<bar>m\<bar> < 2 ^ 53 \<Longrightarrow> rnd53 (of_int m) = of_int m"
  using rnd53_float [of m 0] by simp

lemma rnd53_int_power2: "\<bar>m\<bar> < 2 ^ 53 \<Longrightarrow> rnd53 (of_int m * 2 ^ k) = of_int m * 2 ^ k"
  using rnd53_float [of m "int k"] by simp

lemma rnd53_one: "rnd53 1 = 1"
  using rnd53_int [of 1] by simp

lemma rnd53_ten: "rnd53 10 = 10"
  using rnd53_int [of 10] by simp

lemma rnd53_eleven: "rnd53 11 = 11"
  using rnd53_int [of 11] by simp

lemma eps53: "rnd53 (1 / 10 ^ 6) = 4722366482869645 / 2 ^ 72"
proof -
  have "rnd53 (1 / 10 ^ 6) = of_int (round_half_even ((1 / 10 ^ 6) / 2 powi (- 72))) * 2 powi (- 72)"
    by (rule rnd53_eval) simp_all
  also have "round_half_even ((1 / 10 ^ 6) / 2 powi (- 72)) = 4722366482869645"
    by (simp add: round_half_even_def Let_def)
  finally show ?thesis by simp
qed

lemma eps53_small: "\<not> \<bar>2 ^ k\<bar> < rnd53 (1 / 10 ^ 6)" "\<not> \<bar>- (2 ^ k)\<bar> < rnd53 (1 / 10 ^ 6)"
  "\<not> \<bar>- 1\<bar> < rnd53 (1 / 10 ^ 6)"
proof -
  define e where "e = rnd53 (1 / 10 ^ 6)"
  have "e < 1" unfolding e_def eps53 by simp
  moreover have "(1 :: real) \<le> 2 ^ k" by simp
  moreover have "\<bar>2 ^ k\<bar> = (2 ^ k :: real)" "\<bar>- (2 ^ k)\<bar> = (2 ^ k :: real)" "\<bar>- 1\<bar> = (1 :: real)"
    by simp_all
  ultimately have "\<not> \<bar>2 ^ k\<bar> < e" "\<not> \<bar>- (2 ^ k)\<bar> < e" "\<not> \<bar>- 1\<bar> < e"
    by linarith+
  then show "\<not> \<bar>2 ^ k\<bar> < rnd53 (1 / 10 ^ 6)" "\<not> \<bar>- (2 ^ k)\<bar> < rnd53 (1 / 10 ^ 6)"
    "\<not> \<bar>- 1\<bar> < rnd53 (1 / 10 ^ 6)"
    unfolding e_def .
qed

text \<open>
  The rounded significand has at least 53 bits, so rounding keeps the sign.
\<close>

lemma round_half_even_bounds: "\<lfloor>y\<rfloor> \<le> round_half_even y" "round_half_even y \<le> \<lfloor>y\<rfloor> + 1"
  by (simp_all add: round_half_even_def Let_def)

lemma rnd53_scaled_magnitude:
  assumes "x \<noteq> 0"
  shows "2 ^ 52 \<le> \<bar>x / 2 powi (\<lfloor>log 2 \<bar>x\<bar>\<rfloor> - 52)\<bar>"
proof -
  define k where "k = \<lfloor>log 2 \<bar>x\<bar>\<rfloor>"
  have pos: "0 < \<bar>x\<bar>" using assms by simp
  have "2 powr real_of_int k \<le> \<bar>x\<bar>"
    using floor_log_eq_powr_iff [of "\<bar>x\<bar>" 2 k] pos by (simp add: k_def)
  then have lo: "2 powi k \<le> \<bar>x\<bar>"
    by (simp add: powr_real_of_int')
  have "(2 :: real) powi k = 2 ^ 52 * 2 powi (k - 52)"
    using power_int_add [of "2 :: real" 52 "k - 52"] by simp
  then have "2 ^ 52 * 2 powi (k - 52) \<le> \<bar>x\<bar>"
    using lo by simp
  then have "2 ^ 52 \<le> \<bar>x\<bar> / 2 powi (k - 52)"
    by (simp add: pos_le_divide_eq)
  then show ?thesis
    by (simp add: k_def [symmetric] abs_divide)
qed

lemma sign_faithful_rnd53: "sign_faithful rnd53"
  unfolding sign_faithful_def
proof (intro allI)
  fix x :: real
  show "(rnd53 x < 0) = (x < 0) \<and> (0 < rnd53 x) = (0 < x)"
  proof (cases "x = 0")
    case True
    then show ?thesis by (simp add: rnd53_zero)
  next
    case False
    define q :: real where "q = 2 powi (\<lfloor>log 2 \<bar>x\<bar>\<rfloor> - 52)"
    define y where "y = x / q"
    have q: "0 < q" by (simp add: q_def)
    have mag: "2 ^ 52 \<le> \<bar>y\<bar>"
      using rnd53_scaled_magnitude [OF False] by (simp add: y_def q_def)
    have r: "rnd53 x = of_int (round_half_even y) * q"
      using False by (simp add: rnd53_def y_def q_def Let_def)
    have sgn_y: "(y < 0) = (x < 0)" "(0 < y) = (0 < x)"
      using q by (simp_all add: y_def divide_less_0_iff zero_less_divide_iff)
    show ?thesis
    proof (cases "0 < y")
      case True
      then have "2 ^ 52 \<le> y" using mag by simp
      then have "\<lfloor>(2 :: real) ^ 52\<rfloor> \<le> \<lfloor>y\<rfloor>" by (rule floor_mono)
      moreover have "\<lfloor>(2 :: real) ^ 52\<rfloor> = 2 ^ 52"
        by (metis floor_of_int of_int_numeral of_int_power)
      moreover have "(0 :: int) < 2 ^ 52" by simp
      ultimately have "0 < round_half_even y"
        using round_half_even_bounds(1) [of y] by linarith
      then have "0 < rnd53 x"
        using q by (simp add: r)
      with True sgn_y show ?thesis by auto
    next
      case False
      then have "y \<le> - (2 ^ 52)" using mag by simp
      then have "\<lfloor>y\<rfloor> \<le> \<lfloor>- ((2 :: real) ^ 52)\<rfloor>" by (rule floor_mono)
      moreover have "\<lfloor>- ((2 :: real) ^ 52)\<rfloor> = - (2 ^ 52)"
        by (metis floor_of_int of_int_minus of_int_numeral of_int_power)
      moreover have "(1 :: int) < 2 ^ 52" by simp
      ultimately have "round_half_even y < 0"
        using round_half_even_bounds(2) [of y] by linarith
      then have "rnd53 x < 0"
        using q by (simp add: r mult_less_0_iff)
      moreover have "y < 0" using \<open>y \<le> - (2 ^ 52)\<close> by (smt (verit) zero_less_power)
      ultimately show ?thesis using sgn_y by auto
    qed
  qed
qed

text \<open>
  Floats with a negative exponent, and the scaling by a power of two, which rounding
  commutes with.
\<close>

lemma rnd53_int_over_power2: "\<bar>m\<bar> < 2 ^ 53 \<Longrightarrow> rnd53 (of_int m / 2 ^ k) = of_int m / 2 ^ k"
  using rnd53_float [of m "- int k"] by (simp add: power_int_minus divide_inverse)

lemma rnd53_scale_power2: "rnd53 (2 powi k * x) = 2 powi k * rnd53 x"
proof (cases "x = 0")
  case True
  then show ?thesis by (simp add: rnd53_zero)
next
  case False
  define e where "e = \<lfloor>log 2 \<bar>x\<bar>\<rfloor> - 52"
  have pos: "0 < \<bar>x\<bar>" using False by simp
  have "2 powr real_of_int (e + 52) \<le> \<bar>x\<bar>" "\<bar>x\<bar> < 2 powr (real_of_int (e + 52) + 1)"
    using floor_log_eq_powr_iff [of "\<bar>x\<bar>" 2 "e + 52"] pos by (simp_all add: e_def)
  moreover have "2 powr real_of_int (e + 52) = (2 :: real) powi (e + 52)"
    by (rule powr_real_of_int') simp_all
  moreover have "2 powr (real_of_int (e + 52) + 1) = (2 :: real) powi (e + 53)"
    using powr_real_of_int' [of "2 :: real" "e + 53"] by (simp add: add.commute)
  ultimately have b: "2 powi (e + 52) \<le> \<bar>x\<bar>" "\<bar>x\<bar> < 2 powi (e + 53)"
    by simp_all
  have p: "(2 :: real) powi (k + e + 52) = 2 powi k * 2 powi (e + 52)"
    "(2 :: real) powi (k + e + 53) = 2 powi k * 2 powi (e + 53)"
    "(2 :: real) powi (k + e) = 2 powi k * 2 powi e"
    by (simp_all add: power_int_add add.assoc)
  have lo: "2 powi (k + e + 52) \<le> \<bar>2 powi k * x\<bar>"
    unfolding p using b(1) by (simp add: abs_mult)
  have hi: "\<bar>2 powi k * x\<bar> < 2 powi (k + e + 53)"
    unfolding p using b(2) by (simp add: abs_mult)
  have q: "2 powi k * x / (2 powi k * 2 powi e) = x / 2 powi e"
    by simp
  have "rnd53 (2 powi k * x) =
      of_int (round_half_even (2 powi k * x / 2 powi (k + e))) * 2 powi (k + e)"
    by (rule rnd53_eval [OF lo hi])
  also have "\<dots> = of_int (round_half_even (x / 2 powi e)) * (2 powi k * 2 powi e)"
    by (simp only: p(3) q)
  also have "\<dots> = 2 powi k * rnd53 x"
    unfolding rnd53_eval [OF b] by simp
  finally show ?thesis .
qed

lemma rnd53_scale_small: "rnd53 (1 / 2 ^ 30 * x) = 1 / 2 ^ 30 * rnd53 x"
proof -
  have e: "(2 :: real) powi (- 30) = 1 / 2 ^ 30"
    by (simp add: power_int_minus inverse_eq_divide)
  show ?thesis
    using rnd53_scale_power2 [of "- 30" x] unfolding e .
qed

section \<open>A bracket that no longer moves\<close>

text \<open>
  When every pass from a bracket leads back to it with the same estimate \<open>m\<close>, the run
  depends on the checkpoint alone: with no checkpoint yet, \<open>m\<close> is recorded at
  iteration 100 and the run raises at iteration 200; with a recorded checkpoint other
  than \<open>m\<close> the run never raises and ends with \<open>None\<close> when the iterations run out.
\<close>

lemma stuck_other:
  assumes stuck: "\<And>n p. secant_step rnd f eps_y eps_x n a b p =
      (if n mod 100 = 0 \<and> p = Some m then Raise ConvergenceFailed
       else Continue a b (if n mod 100 = 0 \<and> p = None then Some m else p))"
    and "q \<noteq> m"
  shows "secant_loop rnd f N eps_y eps_x n a b (Some q) = Inr None"
proof (induction "Suc N - n" arbitrary: n)
  case 0
  then have "N < n" by simp
  then show ?case by (rule secant_loop_done)
next
  case (Suc k)
  then have n: "n \<le> N" and k: "k = Suc N - Suc n" by simp_all
  show ?case
    using assms(2) by (simp add: secant_loop_unfold [OF n] stuck Suc.hyps(1) [OF k])
qed

lemma stuck_raise_recorded:
  assumes stuck: "\<And>n p. secant_step rnd f eps_y eps_x n a b p =
      (if n mod 100 = 0 \<and> p = Some m then Raise ConvergenceFailed
       else Continue a b (if n mod 100 = 0 \<and> p = None then Some m else p))"
    and "200 \<le> N"
  shows "1 \<le> n \<Longrightarrow> n \<le> 200 \<Longrightarrow> secant_loop rnd f N eps_y eps_x n a b (Some m) = Inl ConvergenceFailed"
proof (induction "200 - n" arbitrary: n)
  case 0
  then have n: "n \<le> N" "n mod 100 = 0"
    using assms(2) by simp_all
  show ?case
    by (simp add: secant_loop_unfold [OF n(1)] stuck n(2))
next
  case (Suc k)
  then have n: "n \<le> N" "n < 200" and k: "k = 200 - Suc n"
    using assms(2) by simp_all
  show ?case
  proof (cases "n mod 100 = 0")
    case True
    then show ?thesis by (simp add: secant_loop_unfold [OF n(1)] stuck)
  next
    case False
    have "secant_loop rnd f N eps_y eps_x (Suc n) a b (Some m) = Inl ConvergenceFailed"
      using n(2) by (intro Suc.hyps(1) [OF k]) simp_all
    with False show ?thesis by (simp add: secant_loop_unfold [OF n(1)] stuck)
  qed
qed

lemma stuck_raise:
  assumes stuck: "\<And>n p. secant_step rnd f eps_y eps_x n a b p =
      (if n mod 100 = 0 \<and> p = Some m then Raise ConvergenceFailed
       else Continue a b (if n mod 100 = 0 \<and> p = None then Some m else p))"
    and "200 \<le> N"
  shows "1 \<le> n \<Longrightarrow> n \<le> 100 \<Longrightarrow> secant_loop rnd f N eps_y eps_x n a b None = Inl ConvergenceFailed"
proof (induction "100 - n" arbitrary: n)
  case 0
  then have n: "n \<le> N" "n mod 100 = 0" "Suc n \<le> 200"
    using assms(2) by simp_all
  have "secant_loop rnd f N eps_y eps_x (Suc n) a b (Some m) = Inl ConvergenceFailed"
    using n(3) by (intro stuck_raise_recorded [OF stuck assms(2)]) simp_all
  then show ?case
    by (simp add: secant_loop_unfold [OF n(1)] stuck n(2))
next
  case (Suc k)
  then have n: "n \<le> N" "n < 100" and k: "k = 100 - Suc n"
    using assms(2) by simp_all
  have nz: "n mod 100 \<noteq> 0" using Suc.prems(1) n(2) by simp
  have "secant_loop rnd f N eps_y eps_x (Suc n) a b None = Inl ConvergenceFailed"
    using n(2) by (intro Suc.hyps(1) [OF k]) simp_all
  with nz show ?case by (simp add: secant_loop_unfold [OF n(1)] stuck)
qed

lemma stuck_state:
  assumes stuck: "\<And>n p. secant_step rnd f eps_y eps_x n a b p =
      (if n mod 100 = 0 \<and> p = Some m then Raise ConvergenceFailed
       else Continue a b (if n mod 100 = 0 \<and> p = None then Some m else p))"
    and "q \<noteq> m"
    and "secant_state rnd f eps_y eps_x a0 b0 (Suc k) = Some (a, b, Some q)"
  shows "secant_state rnd f eps_y eps_x a0 b0 (Suc k + i) = Some (a, b, Some q)"
  using assms(2,3) by (induction i) (simp_all add: stuck)


section \<open>The run on the objective that stalls late\<close>

text \<open>
  In binary64 the bracket of \<open>stall_objective\<close> halves at each of the iterations 1 to
  150, from \<open>2 ^ 200\<close> down to \<open>2 ^ 50\<close>, and then stays: the divisor \<open>-1 - 2 ^ 100\<close>
  rounds to \<open>-(2 ^ 100)\<close>, so the estimate is the right end itself.
\<close>

lemma rnd53_stall_divisor: "rnd53 (- 1 - 2 ^ 100) = - (2 ^ 100)"
proof -
  have "rnd53 (- 1 - 2 ^ 100) = of_int (round_half_even ((- 1 - 2 ^ 100) / 2 powi 48)) * 2 powi 48"
    by (rule rnd53_eval) simp_all
  also have "round_half_even ((- 1 - 2 ^ 100) / 2 powi 48) = - (2 ^ 52)"
    by (simp add: round_half_even_def Let_def)
  finally show ?thesis by simp
qed

lemma estimate_halving:
  "secant_estimate rnd53 0 (2 ^ Suc j) (2 ^ k) (- (2 ^ k)) = 2 ^ j"
proof -
  have 1: "rnd53 (2 ^ Suc j - 0) = 2 ^ Suc j"
    by (simp only: diff_zero rnd53_power2)
  have 2: "rnd53 (2 ^ k * 2 ^ Suc j) = 2 ^ (k + Suc j)"
    by (simp only: power_add [symmetric] rnd53_power2)
  have "- (2 ^ k) - 2 ^ k = - (2 ^ Suc k :: real)" by simp
  then have 3: "rnd53 (- (2 ^ k) - 2 ^ k) = - (2 ^ Suc k)"
    by (simp only: rnd53_neg_power2)
  have 4: "2 ^ (k + Suc j) / - (2 ^ Suc k) = - (2 ^ j :: real)"
    by (simp add: power_add)
  have 5: "rnd53 (0 - - (2 ^ j)) = 2 ^ j"
    by (simp add: rnd53_power2)
  show ?thesis
    by (simp only: secant_estimate_def 1 2 3 4 rnd53_neg_power2 5)
qed

lemma estimate_stuck:
  "secant_estimate rnd53 0 (2 ^ 50) (2 ^ 100) (- 1) = 2 ^ 50"
proof -
  have 1: "rnd53 (2 ^ 50 - 0) = 2 ^ 50"
    by (simp only: diff_zero rnd53_power2)
  have 2: "rnd53 (2 ^ 100 * 2 ^ 50) = 2 ^ 150"
    using rnd53_power2 [of 150] by simp
  have 4: "2 ^ 150 / - (2 ^ 100) = - (2 ^ 50 :: real)"
    by simp
  have 5: "rnd53 (0 - - (2 ^ 50)) = 2 ^ 50"
    using rnd53_power2 [of 50] by simp
  show ?thesis
    by (simp only: secant_estimate_def 1 2 rnd53_stall_divisor 4 rnd53_neg_power2 5)
qed

lemma stall_objective_zero: "stall_objective 0 = Inr (2 ^ 100)"
  by (simp add: stall_objective_def)

lemma stall_objective_high: "50 < j \<Longrightarrow> stall_objective (2 ^ j) = Inr (- (2 ^ 100))"
proof -
  assume "50 < j"
  then have "(2 :: real) ^ 50 < 2 ^ j" by (rule power_strict_increasing) simp
  moreover have "(2 :: real) ^ j \<noteq> 0" by simp
  ultimately show ?thesis
    unfolding stall_objective_def by (simp only: if_True if_False)
qed

lemma stall_objective_low: "stall_objective (2 ^ 50) = Inr (- 1)"
  by (simp add: stall_objective_def)

lemma step_halving:
  assumes "50 \<le> j" and "\<not> (n mod 100 = 0 \<and> p = Some (2 ^ j))"
  shows "secant_step rnd53 stall_objective (rnd53 (1 / 10 ^ 6)) (rnd53 (1 / 10 ^ 6)) n 0 (2 ^ Suc j) p =
     Continue 0 (2 ^ j) (if n mod 100 = 0 \<and> p = None then Some (2 ^ j) else p)"
proof -
  have fb: "stall_objective (2 ^ Suc j) = Inr (- (2 ^ 100))"
    using assms(1) by (intro stall_objective_high) simp
  have den: "rnd53 (- (2 ^ 100) - 2 ^ 100) \<noteq> 0"
    using rnd53_neg_power2 [of 101] by simp
  have w: "\<not> \<bar>rnd53 (2 ^ Suc j - 0)\<bar> < rnd53 (1 / 10 ^ 6)"
    by (simp only: diff_zero rnd53_power2 eps53_small not_False_eq_True)
  obtain v where fm: "stall_objective (2 ^ j) = Inr (- (2 ^ v))"
    using stall_objective_high [of j] stall_objective_low assms(1)
    by (cases "j = 50") (auto intro: that [of 0] that [of 100])
  have y: "\<not> \<bar>- (2 ^ v)\<bar> < rnd53 (1 / 10 ^ 6)"
    by (rule eps53_small)
  have "2 ^ 100 * - (2 ^ v) = - (2 ^ (100 + v) :: real)"
    by (simp add: power_add)
  then have sg: "rnd53 (2 ^ 100 * - (2 ^ v)) < 0"
    by (simp only: rnd53_neg_power2) simp
  show ?thesis
    unfolding secant_step_def stall_objective_zero fb sum.case Let_def estimate_halving fm
    using den w y sg assms(2) by (simp only: if_False if_True)
qed

lemma step_stuck:
  "secant_step rnd53 stall_objective (rnd53 (1 / 10 ^ 6)) (rnd53 (1 / 10 ^ 6)) n 0 (2 ^ 50) p =
     (if n mod 100 = 0 \<and> p = Some (2 ^ 50) then Raise ConvergenceFailed
      else Continue 0 (2 ^ 50) (if n mod 100 = 0 \<and> p = None then Some (2 ^ 50) else p))"
proof -
  have den: "rnd53 (- 1 - 2 ^ 100) \<noteq> 0"
    unfolding rnd53_stall_divisor by simp
  have w: "\<not> \<bar>rnd53 (2 ^ 50 - 0)\<bar> < rnd53 (1 / 10 ^ 6)"
    by (simp only: diff_zero rnd53_power2 eps53_small not_False_eq_True)
  have y: "\<not> \<bar>- 1\<bar> < rnd53 (1 / 10 ^ 6)"
    by (rule eps53_small)
  have "2 ^ 100 * - 1 = - (2 ^ 100 :: real)" by simp
  then have sg: "rnd53 (2 ^ 100 * - 1) < 0"
    by (simp only: rnd53_neg_power2) simp
  show ?thesis
    unfolding secant_step_def stall_objective_zero stall_objective_low sum.case Let_def estimate_stuck
    using den w y sg by (simp only: if_False if_True)
qed

lemma stall_state_first:
  "secant_state rnd53 stall_objective eps_y eps_x 0 (2 ^ 200) (Suc 0) = Some (0, 2 ^ 200, None)"
proof -
  have fb: "stall_objective (2 ^ 200) = Inr (- (2 ^ 100))"
    by (rule stall_objective_high) simp
  have "2 ^ 100 * - (2 ^ 100) = - (2 ^ 200 :: real)" by simp
  then have "rnd53 (2 ^ 100 * - (2 ^ 100)) < 0"
    by (simp only: rnd53_neg_power2) simp
  then have "\<not> 0 \<le> rnd53 (2 ^ 100 * - (2 ^ 100))" by simp
  then show ?thesis
    unfolding secant_state.simps stall_objective_zero fb sum.case by (simp only: if_False)
qed

lemma stall_state_halving:
  "n \<le> 150 \<Longrightarrow>
   secant_state rnd53 stall_objective (rnd53 (1 / 10 ^ 6)) (rnd53 (1 / 10 ^ 6)) 0 (2 ^ 200) (Suc n) =
     Some (0, 2 ^ (200 - n), if n < 100 then None else Some (2 ^ 100))"
proof (induction n)
  case 0
  show ?case
    using stall_state_first by simp
next
  case (Suc n)
  then have n: "n \<le> 149" by simp
  define j where "j = 199 - n"
  have j: "50 \<le> j" "200 - n = Suc j" "200 - Suc n = j"
    using n by (simp_all add: j_def)
  define p where "p = (if n < 100 then None else Some (2 ^ 100 :: real))"
  have st: "secant_state rnd53 stall_objective (rnd53 (1 / 10 ^ 6)) (rnd53 (1 / 10 ^ 6)) 0 (2 ^ 200) (Suc n) =
      Some (0, 2 ^ Suc j, p)"
    using Suc.IH n by (simp only: j p_def)
  have chk: "Suc n mod 100 = 0 \<longleftrightarrow> n = 99"
    using n by presburger
  have nostall: "\<not> (Suc n mod 100 = 0 \<and> p = Some (2 ^ j))"
    by (auto simp: chk p_def)
  have p': "(if Suc n mod 100 = 0 \<and> p = None then Some (2 ^ j) else p) =
      (if Suc n < 100 then None else Some (2 ^ 100))"
    using n by (auto simp: chk p_def j_def)
  show ?case
    unfolding secant_state.simps st option.case prod.case step_halving [OF j(1) nostall] outcome.case
      p' j(3) ..
qed

lemma stall_state_stuck:
  "secant_state rnd53 stall_objective (rnd53 (1 / 10 ^ 6)) (rnd53 (1 / 10 ^ 6)) 0 (2 ^ 200) (Suc 150 + i) =
     Some (0, 2 ^ 50, Some (2 ^ 100))"
proof (rule stuck_state [where m = "2 ^ 50"])
  show "secant_step rnd53 stall_objective (rnd53 (1 / 10 ^ 6)) (rnd53 (1 / 10 ^ 6)) n 0 (2 ^ 50) p =
      (if n mod 100 = 0 \<and> p = Some (2 ^ 50) then Raise ConvergenceFailed
       else Continue 0 (2 ^ 50) (if n mod 100 = 0 \<and> p = None then Some (2 ^ 50) else p))" for n p
    by (rule step_stuck)
  show "(2 :: real) ^ 100 \<noteq> 2 ^ 50" by simp
  show "secant_state rnd53 stall_objective (rnd53 (1 / 10 ^ 6)) (rnd53 (1 / 10 ^ 6)) 0 (2 ^ 200) (Suc 150) =
      Some (0, 2 ^ 50, Some (2 ^ 100))"
    using stall_state_halving [of 150] by simp
qed


section \<open>A series with large amounts\<close>

text \<open>
  The series of \<open>-(2 ^ 100 + 2 ^ 48)\<close> on day 0 and \<open>11 * 2 ^ 100\<close> on day 365, in
  binary64: the net present value is \<open>10 * 2 ^ 100\<close> at rate 0 and \<open>-(2 ^ 48)\<close> at rate
  10, the first secant estimate rounds to 10, and the bracket from 0 to 10 never moves.
\<close>

lemma xnpv_two_rounded:
  assumes "rnd 0 = 0" "rnd 1 = 1" "rnd a0 = a0" "rnd (r + 1) = rp" "0 < rp" "rnd rp = rp"
  shows "xnpv rnd r [(0, a0), (365, a1)] True True = Inr (rnd (a0 + rnd (a1 / rp)))"
proof -
  have pw0: "float_pow rnd rp 0 = Inr 1"
    by (simp add: float_pow_def)
  have pw1: "float_pow rnd rp 1 = Inr rp"
    using assms(5,6) by (simp add: float_pow_def)
  have nz: "rp \<noteq> 0" using assms(5) by simp
  show ?thesis
    by (simp add: xnpv_def Let_def assms(1,2,3,4,6) pw0 pw1 nz)
qed

lemma rnd53_first_amount: "rnd53 (- (2 ^ 100 + 2 ^ 48)) = - (2 ^ 100 + 2 ^ 48)"
  using rnd53_int_power2 [of "- (2 ^ 52 + 1)" 48] by simp

lemma rnd53_second_amount: "rnd53 (11 * 2 ^ 100) = 11 * 2 ^ 100"
  using rnd53_int_power2 [of 11 100] by simp

lemma rnd53_sum_at_0: "rnd53 (- (2 ^ 100 + 2 ^ 48) + 11 * 2 ^ 100) = 10 * 2 ^ 100"
proof -
  let ?x = "- (2 ^ 100 + 2 ^ 48) + 11 * 2 ^ 100 :: real"
  have "rnd53 ?x = of_int (round_half_even (?x / 2 powi 51)) * 2 powi 51"
    by (rule rnd53_eval) simp_all
  also have "round_half_even (?x / 2 powi 51) = 10 * 2 ^ 49"
    by (simp add: round_half_even_def Let_def)
  finally show ?thesis by simp
qed

lemma rnd53_divisor: "rnd53 (- (2 ^ 48) - 10 * 2 ^ 100) = - (10 * 2 ^ 100)"
proof -
  let ?x = "- (2 ^ 48) - 10 * 2 ^ 100 :: real"
  have "rnd53 ?x = of_int (round_half_even (?x / 2 powi 51)) * 2 powi 51"
    by (rule rnd53_eval) simp_all
  also have "round_half_even (?x / 2 powi 51) = - (10 * 2 ^ 49)"
    by (simp add: round_half_even_def Let_def)
  finally show ?thesis by simp
qed

lemma large_npv_at_0:
  "xnpv rnd53 0 [(0, - (2 ^ 100 + 2 ^ 48)), (365, 11 * 2 ^ 100)] True True = Inr (10 * 2 ^ 100)"
proof -
  have "xnpv rnd53 0 [(0, - (2 ^ 100 + 2 ^ 48)), (365, 11 * 2 ^ 100)] True True =
      Inr (rnd53 (- (2 ^ 100 + 2 ^ 48) + rnd53 (11 * 2 ^ 100 / 1)))"
    by (rule xnpv_two_rounded, rule rnd53_zero, rule rnd53_one, rule rnd53_first_amount)
      (simp_all add: rnd53_one)
  also have "rnd53 (11 * 2 ^ 100 / 1) = 11 * 2 ^ 100"
    by (simp only: div_by_1 rnd53_second_amount)
  finally show ?thesis
    by (simp only: rnd53_sum_at_0)
qed

lemma large_npv_at_10:
  "xnpv rnd53 10 [(0, - (2 ^ 100 + 2 ^ 48)), (365, 11 * 2 ^ 100)] True True = Inr (- (2 ^ 48))"
proof -
  have "xnpv rnd53 10 [(0, - (2 ^ 100 + 2 ^ 48)), (365, 11 * 2 ^ 100)] True True =
      Inr (rnd53 (- (2 ^ 100 + 2 ^ 48) + rnd53 (11 * 2 ^ 100 / 11)))"
    by (rule xnpv_two_rounded, rule rnd53_zero, rule rnd53_one, rule rnd53_first_amount)
      (simp_all add: rnd53_eleven)
  also have "11 * 2 ^ 100 / 11 = (2 ^ 100 :: real)" by simp
  also have "rnd53 (2 ^ 100) = 2 ^ 100" by (rule rnd53_power2)
  also have "- (2 ^ 100 + 2 ^ 48) + 2 ^ 100 = - (2 ^ 48 :: real)" by simp
  also have "rnd53 (- (2 ^ 48)) = - (2 ^ 48)" by (rule rnd53_neg_power2)
  finally show ?thesis .
qed

lemma large_product_negative: "rnd53 (10 * 2 ^ 100 * - (2 ^ 48)) < 0"
proof -
  have "10 * 2 ^ 100 * - (2 ^ 48) = (of_int (- 10) * 2 ^ 148 :: real)" by simp
  also have "rnd53 \<dots> = of_int (- 10) * 2 ^ 148"
    by (rule rnd53_int_power2) simp
  finally show ?thesis by simp
qed

lemma large_estimate: "secant_estimate rnd53 0 10 (10 * 2 ^ 100) (- (2 ^ 48)) = 10"
proof -
  have 1: "rnd53 (10 - 0) = 10"
    by (simp only: diff_zero rnd53_ten)
  have "10 * 2 ^ 100 * 10 = (of_int 100 * 2 ^ 100 :: real)" by simp
  also have "rnd53 \<dots> = of_int 100 * 2 ^ 100"
    by (rule rnd53_int_power2) simp
  finally have 2: "rnd53 (10 * 2 ^ 100 * 10) = 100 * 2 ^ 100" by simp
  have 3: "100 * 2 ^ 100 / - (10 * 2 ^ 100) = (- 10 :: real)" by simp
  have 4: "rnd53 (- 10) = - 10"
    using rnd53_int [of "- 10"] by simp
  have 5: "rnd53 (0 - - 10) = 10"
    using rnd53_ten by simp
  show ?thesis
    by (simp only: secant_estimate_def 1 2 rnd53_divisor 3 4 5)
qed

lemma large_step_stuck:
  "secant_step rnd53 (\<lambda>r. xnpv rnd53 r [(0, - (2 ^ 100 + 2 ^ 48)), (365, 11 * 2 ^ 100)] True True)
      (rnd53 (1 / 10 ^ 6)) (rnd53 (1 / 10 ^ 6)) n 0 10 p =
     (if n mod 100 = 0 \<and> p = Some 10 then Raise ConvergenceFailed
      else Continue 0 10 (if n mod 100 = 0 \<and> p = None then Some 10 else p))"
proof -
  have den: "rnd53 (- (2 ^ 48) - 10 * 2 ^ 100) \<noteq> 0"
    unfolding rnd53_divisor by simp
  have e: "rnd53 (1 / 10 ^ 6) < 1" unfolding eps53 by simp
  have "\<bar>rnd53 (10 - 0)\<bar> = 10"
    by (simp only: diff_zero rnd53_ten abs_numeral)
  then have w: "\<not> \<bar>rnd53 (10 - 0)\<bar> < rnd53 (1 / 10 ^ 6)"
    using e by linarith
  have y: "\<not> \<bar>- (2 ^ 48)\<bar> < rnd53 (1 / 10 ^ 6)"
    by (rule eps53_small)
  show ?thesis
    unfolding secant_step_def large_npv_at_0 large_npv_at_10 sum.case Let_def large_estimate
    using den w y large_product_negative by (simp only: if_False if_True)
qed

lemma large_day_offsets:
  "day_offsets rnd53 [(0, - (2 ^ 100 + 2 ^ 48)), (365, 11 * 2 ^ 100)] =
     Inr [(0, - (2 ^ 100 + 2 ^ 48)), (365, 11 * 2 ^ 100)]"
  unfolding day_offsets_def list.map prod.case rnd53_first_amount rnd53_second_amount
  by simp

lemma large_solve_stalls:
  "xirr_solve rnd53 [(0, - (2 ^ 100 + 2 ^ 48)), (365, 11 * 2 ^ 100)] = Inl ConvergenceFailed"
proof -
  let ?f = "\<lambda>r. xnpv rnd53 r [(0, - (2 ^ 100 + 2 ^ 48)), (365, 11 * 2 ^ 100)] True True"
  have "secant rnd53 ?f 0 10 2000 (rnd53 (1 / 10 ^ 6)) (rnd53 (1 / 10 ^ 6)) =
      secant_loop rnd53 ?f 2000 (rnd53 (1 / 10 ^ 6)) (rnd53 (1 / 10 ^ 6)) 1 0 10 None"
    by (rule secant_enter [where fa = "10 * 2 ^ 100" and fb = "- (2 ^ 48)"],
      rule large_npv_at_0, rule large_npv_at_10, rule large_product_negative)
  also have "\<dots> = Inl ConvergenceFailed"
    by (rule stuck_raise [where m = 10], rule large_step_stuck) simp_all
  finally show ?thesis
    unfolding xirr_solve_def large_day_offsets sum.case .
qed


section \<open>Series with several entries on one date\<close>

text \<open>
  In binary64 the sum \<open>2 ^ 60 + 1 / 2 ^ 40\<close> rounds to \<open>2 ^ 60\<close>: the running sum of
  the net present value depends on the order in which amounts of very different size
  are added. Three entries on day 0 with the amounts \<open>2 ^ 60\<close>, \<open>1 / 2 ^ 40\<close> and
  \<open>-(2 ^ 60)\<close>, followed by \<open>-(11 / 2 ^ 41)\<close> on day 365: with the small amount second
  it is lost and the net present value is negative at the rates 0 and 10; with the small
  amount third it is kept, the net present value changes sign, and the first secant
  estimate 9 is returned.
\<close>

lemma xnpv_ties_rounded:
  assumes "rnd 0 = 0" "rnd 1 = 1" "rnd (r + 1) = rp" "0 < rp" "rnd rp = rp"
  shows "xnpv rnd r [(0, a1), (0, a2), (0, a3), (365, a4)] True True =
     Inr (rnd (rnd (rnd (rnd (rnd a1) + rnd a2) + rnd a3) + rnd (a4 / rp)))"
proof -
  have pw0: "float_pow rnd rp 0 = Inr 1"
    by (simp add: float_pow_def)
  have pw1: "float_pow rnd rp 1 = Inr rp"
    using assms(4,5) by (simp add: float_pow_def)
  have nz: "rp \<noteq> 0" using assms(4) by simp
  show ?thesis
    by (simp add: xnpv_def Let_def assms(1,2,3,5) pw0 pw1 nz)
qed

lemma rnd53_tiny: "rnd53 (1 / 2 ^ 40) = 1 / 2 ^ 40"
  using rnd53_int_over_power2 [of 1 40] by simp

lemma rnd53_absorbed: "rnd53 (2 ^ 60 + 1 / 2 ^ 40) = 2 ^ 60"
proof -
  let ?x = "2 ^ 60 + 1 / 2 ^ 40 :: real"
  have "rnd53 ?x = of_int (round_half_even (?x / 2 powi 8)) * 2 powi 8"
    by (rule rnd53_eval) simp_all
  also have "round_half_even (?x / 2 powi 8) = 2 ^ 52"
    by (simp add: round_half_even_def Let_def)
  finally show ?thesis by simp
qed

lemma rnd53_last_amount: "rnd53 (- (11 / 2 ^ 41)) = - (11 / 2 ^ 41)"
  using rnd53_int_over_power2 [of "- 11" 41] by simp

lemma rnd53_last_over_11: "rnd53 (- (1 / 2 ^ 41)) = - (1 / 2 ^ 41)"
  using rnd53_int_over_power2 [of "- 1" 41] by simp

lemma rnd53_last_over_10: "rnd53 (- (11 / 2 ^ 41) / 10) = - (4953959590107546 / 2 ^ 93)"
proof -
  let ?x = "- (11 / 2 ^ 41) / 10 :: real"
  have "rnd53 ?x = of_int (round_half_even (?x / 2 powi (- 93))) * 2 powi (- 93)"
    by (rule rnd53_eval) simp_all
  also have "round_half_even (?x / 2 powi (- 93)) = - 4953959590107546"
    by (simp add: round_half_even_def Let_def)
  finally show ?thesis by simp
qed

lemma ties_first_sum:
  "rnd53 (rnd53 (rnd53 (rnd53 (2 ^ 60)) + rnd53 (1 / 2 ^ 40)) + rnd53 (- (2 ^ 60))) = 0"
proof -
  have "2 ^ 60 + - (2 ^ 60) = (0 :: real)" by simp
  then show ?thesis
    by (simp only: rnd53_power2 rnd53_tiny rnd53_neg_power2 rnd53_absorbed rnd53_zero)
qed

lemma ties_last_sum:
  "rnd53 (rnd53 (rnd53 (rnd53 (2 ^ 60)) + rnd53 (- (2 ^ 60))) + rnd53 (1 / 2 ^ 40)) = 1 / 2 ^ 40"
proof -
  have "2 ^ 60 + - (2 ^ 60) = (0 :: real)" by simp
  then show ?thesis
    by (simp only: rnd53_power2 rnd53_tiny rnd53_neg_power2 rnd53_zero add_0_left)
qed

lemma ties_first_npv:
  assumes "rnd53 (r + 1) = rp" "0 < rp" "rnd53 rp = rp"
  shows "xnpv rnd53 r [(0, 2 ^ 60), (0, 1 / 2 ^ 40), (0, - (2 ^ 60)), (365, - (11 / 2 ^ 41))] True True =
     Inr (rnd53 (rnd53 (- (11 / 2 ^ 41) / rp)))"
proof -
  have "xnpv rnd53 r [(0, 2 ^ 60), (0, 1 / 2 ^ 40), (0, - (2 ^ 60)), (365, - (11 / 2 ^ 41))] True True =
      Inr (rnd53 (rnd53 (rnd53 (rnd53 (rnd53 (2 ^ 60)) + rnd53 (1 / 2 ^ 40)) + rnd53 (- (2 ^ 60)))
        + rnd53 (- (11 / 2 ^ 41) / rp)))"
    by (rule xnpv_ties_rounded, rule rnd53_zero, rule rnd53_one, rule assms(1), rule assms(2),
      rule assms(3))
  then show ?thesis
    by (simp only: ties_first_sum add_0_left)
qed

lemma ties_last_npv:
  assumes "rnd53 (r + 1) = rp" "0 < rp" "rnd53 rp = rp"
  shows "xnpv rnd53 r [(0, 2 ^ 60), (0, - (2 ^ 60)), (0, 1 / 2 ^ 40), (365, - (11 / 2 ^ 41))] True True =
     Inr (rnd53 (1 / 2 ^ 40 + rnd53 (- (11 / 2 ^ 41) / rp)))"
proof -
  have "xnpv rnd53 r [(0, 2 ^ 60), (0, - (2 ^ 60)), (0, 1 / 2 ^ 40), (365, - (11 / 2 ^ 41))] True True =
      Inr (rnd53 (rnd53 (rnd53 (rnd53 (rnd53 (2 ^ 60)) + rnd53 (- (2 ^ 60))) + rnd53 (1 / 2 ^ 40))
        + rnd53 (- (11 / 2 ^ 41) / rp)))"
    by (rule xnpv_ties_rounded, rule rnd53_zero, rule rnd53_one, rule assms(1), rule assms(2),
      rule assms(3))
  then show ?thesis
    by (simp only: ties_last_sum)
qed

lemma ties_first_npv_0:
  "xnpv rnd53 0 [(0, 2 ^ 60), (0, 1 / 2 ^ 40), (0, - (2 ^ 60)), (365, - (11 / 2 ^ 41))] True True =
     Inr (- (11 / 2 ^ 41))"
proof -
  have "xnpv rnd53 0 [(0, 2 ^ 60), (0, 1 / 2 ^ 40), (0, - (2 ^ 60)), (365, - (11 / 2 ^ 41))] True True =
      Inr (rnd53 (rnd53 (- (11 / 2 ^ 41) / 1)))"
    by (rule ties_first_npv) (simp_all add: rnd53_one)
  then show ?thesis
    by (simp only: div_by_1 rnd53_last_amount)
qed

lemma ties_first_npv_10:
  "xnpv rnd53 10 [(0, 2 ^ 60), (0, 1 / 2 ^ 40), (0, - (2 ^ 60)), (365, - (11 / 2 ^ 41))] True True =
     Inr (- (1 / 2 ^ 41))"
proof -
  have "xnpv rnd53 10 [(0, 2 ^ 60), (0, 1 / 2 ^ 40), (0, - (2 ^ 60)), (365, - (11 / 2 ^ 41))] True True =
      Inr (rnd53 (rnd53 (- (11 / 2 ^ 41) / 11)))"
    by (rule ties_first_npv) (simp_all add: rnd53_eleven)
  also have "- (11 / 2 ^ 41) / 11 = (- (1 / 2 ^ 41) :: real)" by simp
  finally show ?thesis
    by (simp only: rnd53_last_over_11)
qed

lemma ties_last_npv_0:
  "xnpv rnd53 0 [(0, 2 ^ 60), (0, - (2 ^ 60)), (0, 1 / 2 ^ 40), (365, - (11 / 2 ^ 41))] True True =
     Inr (- (9 / 2 ^ 41))"
proof -
  have "xnpv rnd53 0 [(0, 2 ^ 60), (0, - (2 ^ 60)), (0, 1 / 2 ^ 40), (365, - (11 / 2 ^ 41))] True True =
      Inr (rnd53 (1 / 2 ^ 40 + rnd53 (- (11 / 2 ^ 41) / 1)))"
    by (rule ties_last_npv) (simp_all add: rnd53_one)
  also have "rnd53 (- (11 / 2 ^ 41) / 1) = - (11 / 2 ^ 41)"
    by (simp only: div_by_1 rnd53_last_amount)
  also have "1 / 2 ^ 40 + - (11 / 2 ^ 41) = (of_int (- 9) / 2 ^ 41 :: real)" by simp
  also have "rnd53 \<dots> = of_int (- 9) / 2 ^ 41"
    by (rule rnd53_int_over_power2) simp
  finally show ?thesis by simp
qed

lemma ties_last_npv_10:
  "xnpv rnd53 10 [(0, 2 ^ 60), (0, - (2 ^ 60)), (0, 1 / 2 ^ 40), (365, - (11 / 2 ^ 41))] True True =
     Inr (1 / 2 ^ 41)"
proof -
  have "xnpv rnd53 10 [(0, 2 ^ 60), (0, - (2 ^ 60)), (0, 1 / 2 ^ 40), (365, - (11 / 2 ^ 41))] True True =
      Inr (rnd53 (1 / 2 ^ 40 + rnd53 (- (11 / 2 ^ 41) / 11)))"
    by (rule ties_last_npv) (simp_all add: rnd53_eleven)
  also have "- (11 / 2 ^ 41) / 11 = (- (1 / 2 ^ 41) :: real)" by simp
  also have "rnd53 (- (1 / 2 ^ 41)) = - (1 / 2 ^ 41)" by (rule rnd53_last_over_11)
  also have "1 / 2 ^ 40 + - (1 / 2 ^ 41) = (of_int 1 / 2 ^ 41 :: real)" by simp
  also have "rnd53 \<dots> = of_int 1 / 2 ^ 41"
    by (rule rnd53_int_over_power2) simp
  finally show ?thesis by simp
qed

lemma ties_last_npv_9:
  "xnpv rnd53 9 [(0, 2 ^ 60), (0, - (2 ^ 60)), (0, 1 / 2 ^ 40), (365, - (11 / 2 ^ 41))] True True =
     Inr (4053239664633446 / 2 ^ 93)"
proof -
  have "xnpv rnd53 9 [(0, 2 ^ 60), (0, - (2 ^ 60)), (0, 1 / 2 ^ 40), (365, - (11 / 2 ^ 41))] True True =
      Inr (rnd53 (1 / 2 ^ 40 + rnd53 (- (11 / 2 ^ 41) / 10)))"
    by (rule ties_last_npv) (simp_all add: rnd53_ten)
  also have "rnd53 (- (11 / 2 ^ 41) / 10) = - (4953959590107546 / 2 ^ 93)"
    by (rule rnd53_last_over_10)
  also have "1 / 2 ^ 40 + - (4953959590107546 / 2 ^ 93) = (of_int 4053239664633446 / 2 ^ 93 :: real)"
    by simp
  also have "rnd53 \<dots> = of_int 4053239664633446 / 2 ^ 93"
    by (rule rnd53_int_over_power2) simp
  finally show ?thesis by simp
qed

lemma ties_last_estimate: "secant_estimate rnd53 0 10 (- (9 / 2 ^ 41)) (1 / 2 ^ 41) = 9"
proof -
  have 1: "rnd53 (10 - 0) = 10"
    by (simp only: diff_zero rnd53_ten)
  have "- (9 / 2 ^ 41) * 10 = (of_int (- 90) / 2 ^ 41 :: real)" by simp
  also have "rnd53 \<dots> = of_int (- 90) / 2 ^ 41"
    by (rule rnd53_int_over_power2) simp
  finally have 2: "rnd53 (- (9 / 2 ^ 41) * 10) = - (90 / 2 ^ 41)" by simp
  have "1 / 2 ^ 41 - - (9 / 2 ^ 41) = (of_int 10 / 2 ^ 41 :: real)" by simp
  also have "rnd53 \<dots> = of_int 10 / 2 ^ 41"
    by (rule rnd53_int_over_power2) simp
  finally have 3: "rnd53 (1 / 2 ^ 41 - - (9 / 2 ^ 41)) = 10 / 2 ^ 41" by simp
  have 4: "- (90 / 2 ^ 41) / (10 / 2 ^ 41) = (- 9 :: real)" by simp
  have 5: "rnd53 (- 9) = - 9"
    using rnd53_int [of "- 9"] by simp
  have 6: "rnd53 (0 - - 9) = 9"
    using rnd53_int [of 9] by simp
  show ?thesis
    by (simp only: secant_estimate_def 1 2 3 4 5 6)
qed

lemma ties_last_step:
  "secant_step rnd53
      (\<lambda>r. xnpv rnd53 r [(0, 2 ^ 60), (0, - (2 ^ 60)), (0, 1 / 2 ^ 40), (365, - (11 / 2 ^ 41))] True True)
      (rnd53 (1 / 10 ^ 6)) (rnd53 (1 / 10 ^ 6)) 1 0 10 None = Return (Some 9)"
proof -
  have "1 / 2 ^ 41 - - (9 / 2 ^ 41) = (of_int 10 / 2 ^ 41 :: real)" by simp
  also have "rnd53 \<dots> = of_int 10 / 2 ^ 41"
    by (rule rnd53_int_over_power2) simp
  finally have den: "rnd53 (1 / 2 ^ 41 - - (9 / 2 ^ 41)) \<noteq> 0" by simp
  have e: "rnd53 (1 / 10 ^ 6) < 1" unfolding eps53 by simp
  have "\<bar>rnd53 (10 - 0)\<bar> = 10"
    by (simp only: diff_zero rnd53_ten abs_numeral)
  then have w: "\<not> \<bar>rnd53 (10 - 0)\<bar> < rnd53 (1 / 10 ^ 6)"
    using e by linarith
  have y: "\<bar>4053239664633446 / 2 ^ 93\<bar> < rnd53 (1 / 10 ^ 6)"
    unfolding eps53 by simp
  have n: "\<not> ((1 :: nat) mod 100 = 0 \<and> None = Some (9 :: real))" by simp
  show ?thesis
    unfolding secant_step_def ties_last_npv_0 ties_last_npv_10 sum.case Let_def ties_last_estimate
      ties_last_npv_9
    using den w y n by (simp only: if_False if_True)
qed

lemma ties_first_day_offsets:
  "day_offsets rnd53 [(0, 2 ^ 60), (0, 1 / 2 ^ 40), (0, - (2 ^ 60)), (365, - (11 / 2 ^ 41))] =
     Inr [(0, 2 ^ 60), (0, 1 / 2 ^ 40), (0, - (2 ^ 60)), (365, - (11 / 2 ^ 41))]"
  unfolding day_offsets_def list.map prod.case rnd53_power2 rnd53_neg_power2 rnd53_tiny
    rnd53_last_amount
  by simp

lemma ties_last_day_offsets:
  "day_offsets rnd53 [(0, 2 ^ 60), (0, - (2 ^ 60)), (0, 1 / 2 ^ 40), (365, - (11 / 2 ^ 41))] =
     Inr [(0, 2 ^ 60), (0, - (2 ^ 60)), (0, 1 / 2 ^ 40), (365, - (11 / 2 ^ 41))]"
  unfolding day_offsets_def list.map prod.case rnd53_power2 rnd53_neg_power2 rnd53_tiny
    rnd53_last_amount
  by simp

lemma xirr_ties_first:
  "xirr rnd53 [(0, 2 ^ 60), (0, 1 / 2 ^ 40), (0, - (2 ^ 60)), (365, - (11 / 2 ^ 41))] guess silent =
     Inr None"
proof -
  have "(0 :: real) \<le> - (11 / 2 ^ 41) * - (1 / 2 ^ 41)" by simp
  then have "0 \<le> rnd53 (- (11 / 2 ^ 41) * - (1 / 2 ^ 41))"
    by (simp only: sign_faithful_nonneg [OF sign_faithful_rnd53])
  then have "secant rnd53
      (\<lambda>r. xnpv rnd53 r [(0, 2 ^ 60), (0, 1 / 2 ^ 40), (0, - (2 ^ 60)), (365, - (11 / 2 ^ 41))] True True)
      0 10 2000 (rnd53 (1 / 10 ^ 6)) (rnd53 (1 / 10 ^ 6)) = Inr None"
    unfolding secant_def ties_first_npv_0 ties_first_npv_10 sum.case by (simp only: if_True)
  then show ?thesis
    unfolding xirr_def xirr_solve_def ties_first_day_offsets sum.case by simp
qed

lemma xirr_ties_last:
  "xirr rnd53 [(0, 2 ^ 60), (0, - (2 ^ 60)), (0, 1 / 2 ^ 40), (365, - (11 / 2 ^ 41))] guess silent =
     Inr (Some 9)"
proof -
  let ?f = "\<lambda>r. xnpv rnd53 r [(0, 2 ^ 60), (0, - (2 ^ 60)), (0, 1 / 2 ^ 40), (365, - (11 / 2 ^ 41))] True True"
  have "- (9 / 2 ^ 41) * (1 / 2 ^ 41) < (0 :: real)" by simp
  then have neg: "rnd53 (- (9 / 2 ^ 41) * (1 / 2 ^ 41)) < 0"
    by (simp only: sign_faithful_neg [OF sign_faithful_rnd53])
  have "secant rnd53 ?f 0 10 2000 (rnd53 (1 / 10 ^ 6)) (rnd53 (1 / 10 ^ 6)) =
      secant_loop rnd53 ?f 2000 (rnd53 (1 / 10 ^ 6)) (rnd53 (1 / 10 ^ 6)) 1 0 10 None"
    by (rule secant_enter [where fa = "- (9 / 2 ^ 41)" and fb = "1 / 2 ^ 41"],
      rule ties_last_npv_0, rule ties_last_npv_10, rule neg)
  also have "\<dots> = Inr (Some 9)"
  proof -
    have n: "(1 :: nat) \<le> 2000" by simp
    show ?thesis
      unfolding secant_loop_unfold [OF n] ties_last_step outcome.case ..
  qed
  finally show ?thesis
    unfolding xirr_def xirr_solve_def ties_last_day_offsets sum.case by simp
qed

text \<open>
  The same amounts on four dates, given out of date order, at rate 0.
\<close>

lemma rnd53_absorbed_twice: "rnd53 (1 / 2 ^ 39 + 2 ^ 60) = 2 ^ 60"
proof -
  let ?x = "1 / 2 ^ 39 + 2 ^ 60 :: real"
  have "rnd53 ?x = of_int (round_half_even (?x / 2 powi 8)) * 2 powi 8"
    by (rule rnd53_eval) simp_all
  also have "round_half_even (?x / 2 powi 8) = 2 ^ 52"
    by (simp add: round_half_even_def Let_def)
  finally show ?thesis by simp
qed

lemma rnd53_tiny_twice: "rnd53 (1 / 2 ^ 40 + 1 / 2 ^ 40) = 1 / 2 ^ 39"
proof -
  have "1 / 2 ^ 40 + 1 / 2 ^ 40 = (of_int 1 / 2 ^ 39 :: real)" by simp
  also have "rnd53 \<dots> = of_int 1 / 2 ^ 39"
    by (rule rnd53_int_over_power2) simp
  finally show ?thesis by simp
qed

lemma unsorted_ties_sorted:
  "sort_key fst [(1 :: int, 2 ^ 60 :: real), (0, 1 / 2 ^ 40), (2, - (2 ^ 60)), (0, 1 / 2 ^ 40)] =
     [(0, 1 / 2 ^ 40), (0, 1 / 2 ^ 40), (1, 2 ^ 60), (2, - (2 ^ 60))]"
  by simp

lemma unsorted_ties_npv:
  "xnpv rnd53 0 [(1, 2 ^ 60), (0, 1 / 2 ^ 40), (2, - (2 ^ 60)), (0, 1 / 2 ^ 40)] False dd = Inr 0"
proof -
  have z: "2 ^ 60 + - (2 ^ 60) = (0 :: real)" by simp
  have "xnpv rnd53 0 [(1, 2 ^ 60), (0, 1 / 2 ^ 40), (2, - (2 ^ 60)), (0, 1 / 2 ^ 40)] False dd =
      Inr (foldl (\<lambda>x item. rnd53 (x + rnd53 (snd item))) 0
        (if False then [(1, 2 ^ 60), (0, 1 / 2 ^ 40), (2, - (2 ^ 60)), (0, 1 / 2 ^ 40)]
         else sort_key fst [(1 :: int, 2 ^ 60 :: real), (0, 1 / 2 ^ 40), (2, - (2 ^ 60)), (0, 1 / 2 ^ 40)]))"
    by (rule xnpv_rounded_rate_zero) (simp_all add: rnd53_one)
  also have "\<dots> = Inr 0"
    by (simp only: if_False unsorted_ties_sorted foldl.simps snd_conv add_0_left rnd53_tiny
        rnd53_tiny_twice rnd53_power2 rnd53_absorbed_twice rnd53_neg_power2 z rnd53_zero)
  finally show ?thesis .
qed

lemma unsorted_ties_float_sum:
  "foldl (\<lambda>s a. rnd53 (s + a)) 0
     (map snd [(1 :: int, 2 ^ 60 :: real), (0, 1 / 2 ^ 40), (2, - (2 ^ 60)), (0, 1 / 2 ^ 40)]) = 1 / 2 ^ 40"
proof -
  have z: "2 ^ 60 + - (2 ^ 60) = (0 :: real)" by simp
  show ?thesis
    by (simp only: list.map snd_conv foldl.simps add_0_left rnd53_power2 rnd53_absorbed z rnd53_zero
        rnd53_tiny)
qed

text \<open>
  The series of \<open>-1\<close> on day 0 and \<open>3 / 2\<close> on day 365 consists of floats.
\<close>

lemma small_day_offsets:
  "day_offsets rnd53 [(0, - 1), (365, 3 / 2)] = Inr [(0, - 1), (365, 3 / 2)]"
proof -
  have 1: "rnd53 (- 1) = - 1"
    using rnd53_int [of "- 1"] by simp
  have 2: "rnd53 (3 / 2) = 3 / 2"
    using rnd53_int_over_power2 [of 3 1] by simp
  show ?thesis
    unfolding day_offsets_def list.map prod.case 1 2 by simp
qed

section \<open>The solver on floats that may be NaN: unfolding and the finite runs\<close>

declare secant_loop_nan.simps [simp del]

lemma secant_loop_nan_unfold:
  "n \<le> N \<Longrightarrow> secant_loop_nan rnd f N eps_y eps_x n a_n b_n p =
     (case secant_step_nan rnd f eps_y eps_x n a_n b_n p of
        RaiseN e \<Rightarrow> Inl e | ReturnN r \<Rightarrow> Inr r
      | ContinueN a' b' p' \<Rightarrow> secant_loop_nan rnd f N eps_y eps_x (Suc n) a' b' p')"
  by (subst secant_loop_nan.simps) simp

lemma secant_loop_nan_done:
  "N < n \<Longrightarrow> secant_loop_nan rnd f N eps_y eps_x n a_n b_n p = Inr None"
  by (subst secant_loop_nan.simps) simp

lemma secant_estimate_nan_finite:
  "rnd (fb - fa) \<noteq> 0 \<Longrightarrow>
   secant_estimate_nan rnd (Finite a) (Finite b) (Finite fa) (Finite fb) =
     Inr (Finite (secant_estimate rnd a b fa fb))"
  "rnd (fb - fa) = 0 \<Longrightarrow>
   secant_estimate_nan rnd (Finite a) (Finite b) (Finite fa) (Finite fb) = Inl ZeroDivisionError"
  by (simp_all add: secant_estimate_nan_def secant_estimate_def)

lemma secant_step_nan_finite:
  "secant_step_nan rnd (with_nan f at_nan) eps_y eps_x n (Finite a) (Finite b) (map_option Finite p) =
     finite_outcome (secant_step rnd f eps_y eps_x n a b p)"
proof (cases "f a")
  case (Inl e)
  then show ?thesis by (simp add: secant_step_nan_def secant_step_def with_nan_def)
next
  case fa: (Inr fa)
  show ?thesis
  proof (cases "f b")
    case (Inl e)
    then show ?thesis by (simp add: secant_step_nan_def secant_step_def with_nan_def fa)
  next
    case fb: (Inr fb)
    show ?thesis
    proof (cases "rnd (fb - fa) = 0")
      case True
      then show ?thesis
        by (simp add: secant_step_nan_def secant_step_def with_nan_def fa fb
            secant_estimate_nan_finite)
    next
      case False
      define m where "m = secant_estimate rnd a b fa fb"
      show ?thesis
        by (cases "f m"; cases p)
          (simp_all add: secant_step_nan_def secant_step_def with_nan_def fa fb False
            secant_estimate_nan_finite m_def [symmetric] Let_def)
    qed
  qed
qed

lemma secant_loop_nan_finite:
  "secant_loop_nan rnd (with_nan f at_nan) N eps_y eps_x n (Finite a) (Finite b) (map_option Finite p) =
     map_sum id (map_option Finite) (secant_loop rnd f N eps_y eps_x n a b p)"
proof (induction "Suc N - n" arbitrary: n a b p)
  case 0
  then have "N < n" by simp
  then show ?case by (simp add: secant_loop_nan_done secant_loop_done)
next
  case (Suc k)
  then have n: "n \<le> N" by simp
  have "k = Suc N - Suc n" using Suc.hyps(2) by simp
  note IH = Suc.hyps(1) [OF this]
  show ?case
    by (cases "secant_step rnd f eps_y eps_x n a b p")
      (simp_all add: secant_loop_nan_unfold [OF n] secant_loop_unfold [OF n]
        secant_step_nan_finite IH)
qed

lemma secant_nan_finite:
  "secant_nan rnd (with_nan f at_nan) (Finite a) (Finite b) N eps_y eps_x =
     map_sum id (map_option Finite) (secant rnd f a b N eps_y eps_x)"
proof -
  have lp: "secant_loop_nan rnd (with_nan f at_nan) N eps_y eps_x n (Finite a) (Finite b) None =
      map_sum id (map_option Finite) (secant_loop rnd f N eps_y eps_x n a b None)" for n
    using secant_loop_nan_finite [of rnd f at_nan N eps_y eps_x n a b None] by simp
  show ?thesis
    by (cases "f a"; cases "f b") (simp_all add: secant_nan_def secant_def with_nan_def lp)
qed

section \<open>Runs on floats that may be NaN\<close>

lemma secant_state_nan_run:
  "secant_state_nan rnd f eps_y eps_x a b n = Some (a_n, b_n, p) \<Longrightarrow>
   secant_nan rnd f a b N eps_y eps_x = secant_loop_nan rnd f N eps_y eps_x n a_n b_n p"
proof (induction n arbitrary: a_n b_n p rule: secant_state_nan.induct [of _ rnd f eps_y eps_x a b])
  case (1 rnd f eps_y eps_x a b)
  then show ?case by simp
next
  case (2 rnd f eps_y eps_x a b)
  then show ?case
    by (auto simp: secant_nan_def split: sum.splits if_splits)
next
  case (3 rnd f eps_y eps_x a b n)
  from "3.prems" obtain a0 b0 p0
    where st: "secant_state_nan rnd f eps_y eps_x a b (Suc n) = Some (a0, b0, p0)"
      and step: "secant_step_nan rnd f eps_y eps_x (Suc n) a0 b0 p0 = ContinueN a_n b_n p"
    by (auto split: option.splits outcome_nan.splits)
  have run: "secant_nan rnd f a b N eps_y eps_x = secant_loop_nan rnd f N eps_y eps_x (Suc n) a0 b0 p0"
    by (rule "3.IH" [OF st])
  show ?case
  proof (cases "Suc n \<le> N")
    case True
    then show ?thesis by (simp add: run secant_loop_nan_unfold step)
  next
    case False
    then show ?thesis by (simp add: run secant_loop_nan_done)
  qed
qed

text \<open>
  A product that compares below zero has finite factors, and an estimate that is finite
  comes from finite values of the objective.
\<close>

lemma fl_less_mul:
  "fl_less (fl_mul rnd x y) (Finite 0) \<longleftrightarrow> (\<exists>u v. x = Finite u \<and> y = Finite v \<and> rnd (u * v) < 0)"
  by (cases x; cases y) simp_all

lemma fl_eq_Finite: "fl_eq p m \<longleftrightarrow> (\<exists>x. p = Finite x \<and> m = Finite x)"
  by (cases p; cases m) auto

lemma secant_estimate_nan_is_finite:
  assumes "secant_estimate_nan rnd a_n b_n f_a f_b = Inr (Finite x)"
  shows "\<exists>u v. f_a = Finite u \<and> f_b = Finite v"
  using assms
  by (cases a_n; cases b_n; cases f_a; cases f_b)
    (auto simp: secant_estimate_nan_def split: if_splits)

text \<open>
  A pass that goes on to the next iteration has found a finite value at the estimate,
  which is the new end of the bracket.
\<close>

lemma secant_step_nan_continue:
  assumes "secant_step_nan rnd f eps_y eps_x n a_n b_n p = ContinueN a' b' p'"
  shows "\<exists>f_a f_b m f_m. f a_n = Inr f_a \<and> f b_n = Inr f_b \<and>
      secant_estimate_nan rnd a_n b_n f_a f_b = Inr m \<and> f m = Inr f_m \<and>
      (fl_less (fl_mul rnd f_a f_m) (Finite 0) \<and> a' = a_n \<and> b' = m \<or>
       fl_less (fl_mul rnd f_b f_m) (Finite 0) \<and> a' = m \<and> b' = b_n) \<and>
      (p' = p \<or> p' = Some m)"
  using assms
  by (auto simp: secant_step_nan_def Let_def split: sum.splits if_splits)

lemma secant_state_nan_checkpoint:
  "secant_state_nan rnd f eps_y eps_x a b n = Some (a_n, b_n, p) \<Longrightarrow> checkpoint_finite f p"
proof (induction n arbitrary: a_n b_n p rule: secant_state_nan.induct [of _ rnd f eps_y eps_x a b])
  case (1 rnd f eps_y eps_x a b)
  then show ?case by simp
next
  case (2 rnd f eps_y eps_x a b)
  then show ?case
    by (auto simp: checkpoint_finite_def split: sum.splits if_splits)
next
  case (3 rnd f eps_y eps_x a b n)
  from "3.prems" obtain a0 b0 p0
    where st: "secant_state_nan rnd f eps_y eps_x a b (Suc n) = Some (a0, b0, p0)"
      and step: "secant_step_nan rnd f eps_y eps_x (Suc n) a0 b0 p0 = ContinueN a_n b_n p"
    by (auto split: option.splits outcome_nan.splits)
  have ck: "checkpoint_finite f p0"
    by (rule "3.IH" [OF st])
  from secant_step_nan_continue [OF step] obtain f_a f_b m f_m
    where fm: "f m = Inr f_m"
      and br: "fl_less (fl_mul rnd f_a f_m) (Finite 0) \<or> fl_less (fl_mul rnd f_b f_m) (Finite 0)"
      and p: "p = p0 \<or> p = Some m"
    by blast
  from br obtain v where "f_m = Finite v"
    by (auto simp: fl_less_mul)
  with fm p ck show ?case
    by (auto simp: checkpoint_finite_def)
qed

lemma sign_faithful_keeps_signs: "sign_faithful rnd \<Longrightarrow> keeps_signs_above rnd eps"
  by (simp add: keeps_signs_above_def sign_faithful_neg)

lemma keeps_signs_neg: "keeps_signs_above rnd eps \<Longrightarrow> rnd x < 0 \<Longrightarrow> x < 0"
  by (simp add: keeps_signs_above_def)

lemma keeps_signs_product:
  "keeps_signs_above rnd eps \<Longrightarrow> \<not> \<bar>x\<bar> < eps \<Longrightarrow> \<not> \<bar>y\<bar> < eps \<Longrightarrow> x * y < 0 \<Longrightarrow>
   rnd (x * y) < 0"
  by (simp add: keeps_signs_above_def)

lemma secant_step_nan_continue_value:
  assumes "secant_step_nan rnd f eps_y eps_x n a_n b_n p = ContinueN a' b' p'"
    and "f a_n = Inr f_a" and "f b_n = Inr f_b"
    and "secant_estimate_nan rnd a_n b_n f_a f_b = Inr m" and "f m = Inr f_m"
  shows "\<not> fl_less (fl_abs f_m) (Finite eps_y)"
  using assms by (auto simp: secant_step_nan_def Let_def split: if_splits)

lemma opposite_signs_one_negative:
  fixes u v w :: real
  assumes "u * w < 0" and "v \<noteq> 0"
  shows "u * v < 0 \<or> w * v < 0"
proof -
  from assms(1) consider "u < 0" "0 < w" | "0 < u" "w < 0"
    by (auto simp: mult_less_0_iff)
  then show ?thesis
  proof cases
    case 1
    show ?thesis
    proof (cases "0 < v")
      case True
      with 1(1) have "u * v < 0" by (simp add: mult_less_0_iff)
      then show ?thesis ..
    next
      case False
      with assms(2) have "v < 0" by simp
      with 1(2) have "w * v < 0" by (simp add: mult_less_0_iff)
      then show ?thesis ..
    qed
  next
    case 2
    show ?thesis
    proof (cases "0 < v")
      case True
      with 2(2) have "w * v < 0" by (simp add: mult_less_0_iff)
      then show ?thesis ..
    next
      case False
      with assms(2) have "v < 0" by simp
      with 2(1) have "u * v < 0" by (simp add: mult_less_0_iff)
      then show ?thesis ..
    qed
  qed
qed

lemma secant_state_nan_signs:
  "keeps_signs_above rnd eps_y \<Longrightarrow>
   secant_state_nan rnd f eps_y eps_x a b n = Some (a_n, b_n, p) \<Longrightarrow>
   bracketed_nan f a_n b_n \<and> checkpoint_opposed rnd f eps_y a_n b_n p"
proof (induction n arbitrary: a_n b_n p rule: secant_state_nan.induct [of _ rnd f eps_y eps_x a b])
  case (1 rnd f eps_y eps_x a b)
  then show ?case by simp
next
  case (2 rnd f eps_y eps_x a b)
  note ks = "2.prems"(1)
  note st = "2.prems"(2)
  from st obtain f_a where fa: "f a = Inr f_a"
    by (cases "f a") simp_all
  from st fa obtain f_b where fb: "f b = Inr f_b"
    by (cases "f b") simp_all
  from st have pr: "\<not> fl_le (Finite 0) (fl_mul rnd f_a f_b)"
    by (cases "fl_le (Finite 0) (fl_mul rnd f_a f_b)") (simp_all add: fa fb)
  with st have eq: "a_n = a" "b_n = b" "p = None"
    by (simp_all add: fa fb)
  have "u * v < 0" if "f_a = Finite u" "f_b = Finite v" for u v
  proof -
    from pr that have "rnd (u * v) < 0" by (simp add: not_le)
    then show ?thesis by (rule keeps_signs_neg [OF ks])
  qed
  then have "bracketed_nan f a b"
    unfolding bracketed_nan_def using fa fb by blast
  then show ?case
    by (simp add: eq checkpoint_opposed_def)
next
  case (3 rnd f eps_y eps_x a b n)
  note ks = "3.prems"(1)
  from "3.prems"(2) obtain a0 b0 p0
    where st: "secant_state_nan rnd f eps_y eps_x a b (Suc n) = Some (a0, b0, p0)"
      and step: "secant_step_nan rnd f eps_y eps_x (Suc n) a0 b0 p0 = ContinueN a_n b_n p"
    by (auto split: option.splits outcome_nan.splits)
  from "3.IH" [OF ks st]
  have br0: "bracketed_nan f a0 b0" and ck0: "checkpoint_opposed rnd f eps_y a0 b0 p0"
    by simp_all
  from secant_step_nan_continue [OF step] obtain f_a f_b m f_m
    where fa: "f a0 = Inr f_a" and fb: "f b0 = Inr f_b"
      and est: "secant_estimate_nan rnd a0 b0 f_a f_b = Inr m" and fm: "f m = Inr f_m"
      and br: "fl_less (fl_mul rnd f_a f_m) (Finite 0) \<and> a_n = a0 \<and> b_n = m \<or>
        fl_less (fl_mul rnd f_b f_m) (Finite 0) \<and> a_n = m \<and> b_n = b0"
      and p: "p = p0 \<or> p = Some m"
    by blast
  have big: "\<not> fl_less (fl_abs f_m) (Finite eps_y)"
    by (rule secant_step_nan_continue_value [OF step fa fb est fm])
  from br consider
      (left) u v where "f_a = Finite u" "f_m = Finite v" "rnd (u * v) < 0" "a_n = a0" "b_n = m"
    | (right) u v where "f_b = Finite u" "f_m = Finite v" "rnd (u * v) < 0" "a_n = m" "b_n = b0"
    by (auto simp: fl_less_mul)
  then obtain x u v where kept: "f x = Inr (Finite u)" "f_m = Finite v" "rnd (u * v) < 0"
      and ends: "a_n = x \<and> b_n = m \<or> a_n = m \<and> b_n = x"
      and old: "x = a0 \<or> x = b0"
  proof cases
    case left
    show ?thesis
      by (rule that [of a0 u v]) (simp_all add: left fa)
  next
    case right
    show ?thesis
      by (rule that [of b0 u v]) (simp_all add: right fb)
  qed
  have uv: "u * v < 0"
    by (rule keeps_signs_neg [OF ks kept(3)])
  have vnz: "v \<noteq> 0"
  proof
    assume "v = 0"
    with uv show False by simp
  qed
  have vbig: "\<not> \<bar>v\<bar> < eps_y"
    using big kept(2) by simp
  have fmv: "f m = Inr (Finite v)"
    using fm kept(2) by simp
  have brn: "bracketed_nan f a_n b_n"
  proof -
    from ends show ?thesis
    proof
      assume "a_n = x \<and> b_n = m"
      then show ?thesis
        unfolding bracketed_nan_def using kept(1) fmv uv by simp
    next
      assume "a_n = m \<and> b_n = x"
      then show ?thesis
        unfolding bracketed_nan_def using kept(1) fmv uv by (simp add: mult.commute)
    qed
  qed
  have end_values: "u' = u \<or> u' = v"
    if "f a_n = Inr (Finite u') \<or> f b_n = Inr (Finite u')" for u'
    using that ends kept(1) fmv by auto
  have ckn: "checkpoint_opposed rnd f eps_y a_n b_n p"
  proof (cases p)
    case None
    then show ?thesis by (simp add: checkpoint_opposed_def)
  next
    case (Some c)
    show ?thesis
    proof (cases "c = m")
      case True
      have "rnd (u' * v) < 0"
        if "f a_n = Inr (Finite u') \<or> f b_n = Inr (Finite u')" and "u' * v < 0" for u'
      proof -
        from end_values [OF that(1)] show ?thesis
        proof
          assume "u' = u"
          with kept(3) show ?thesis by simp
        next
          assume "u' = v"
          with that(2) have "v * v < 0" by simp
          then show ?thesis
            using zero_le_square [of v] by simp
        qed
      qed
      with fmv vnz vbig show ?thesis
        unfolding checkpoint_opposed_def Some True by auto
    next
      case False
      with p Some have p0: "p0 = Some c" by simp
      from ck0 [unfolded checkpoint_opposed_def p0] obtain vc
        where c: "f c = Inr (Finite vc)" "vc \<noteq> 0" "\<not> \<bar>vc\<bar> < eps_y"
          and opp: "\<And>u'. f a0 = Inr (Finite u') \<or> f b0 = Inr (Finite u') \<Longrightarrow> u' * vc < 0 \<Longrightarrow>
              rnd (u' * vc) < 0"
        by auto
      have "rnd (u' * vc) < 0"
        if "f a_n = Inr (Finite u') \<or> f b_n = Inr (Finite u')" and "u' * vc < 0" for u'
      proof -
        from end_values [OF that(1)] show ?thesis
        proof
          assume e: "u' = u"
          from old kept(1) have "f a0 = Inr (Finite u) \<or> f b0 = Inr (Finite u)" by auto
          then show ?thesis
            using that(2) unfolding e by (rule opp)
        next
          assume e: "u' = v"
          show ?thesis
            unfolding e by (rule keeps_signs_product [OF ks vbig c(3)]) (use that(2) e in simp)
        qed
      qed
      with c show ?thesis
        unfolding checkpoint_opposed_def Some by auto
    qed
  qed
  from brn ckn show ?case by simp
qed

text \<open>
  The stall check cannot raise at an estimate where the objective is NaN: the checkpoint
  is an estimate from which the run went on, with a finite value.
\<close>

lemma nan_estimate_returns_none:
  assumes ck: "checkpoint_finite f p"
    and fa: "f a_n = Inr f_a" and fb: "f b_n = Inr f_b"
    and est: "secant_estimate_nan rnd a_n b_n f_a f_b = Inr m"
    and fm: "f m = Inr NaN"
    and ex: "\<not> fl_less (fl_abs (fl_sub rnd b_n a_n)) (Finite eps_x)"
  shows "secant_step_nan rnd f eps_y eps_x n a_n b_n p = ReturnN None"
proof -
  have nostall: "\<not> (case p of None \<Rightarrow> False | Some q \<Rightarrow> fl_eq q m)"
    using ck fm by (auto simp: checkpoint_finite_def fl_eq_Finite split: option.splits)
  show ?thesis
    using nostall ex by (simp add: secant_step_nan_def fa fb est fm Let_def)
qed

text \<open>
  Where neither product compares below zero, the stall check cannot raise: the estimate
  is not the checkpoint, whose value has a negative rounded product with the value at
  one end of the bracket.
\<close>

lemma no_negative_product_no_result:
  assumes ks: "keeps_signs_above rnd eps_y"
    and br: "bracketed_nan f a_n b_n" and ck: "checkpoint_opposed rnd f eps_y a_n b_n p"
    and fa: "f a_n = Inr f_a" and fb: "f b_n = Inr f_b"
    and est: "secant_estimate_nan rnd a_n b_n f_a f_b = Inr m"
    and fm: "f m = Inr f_m"
    and ex: "\<not> fl_less (fl_abs (fl_sub rnd b_n a_n)) (Finite eps_x)"
    and ey: "\<not> fl_less (fl_abs f_m) (Finite eps_y)"
    and pa: "\<not> fl_less (fl_mul rnd f_a f_m) (Finite 0)"
    and pb: "\<not> fl_less (fl_mul rnd f_b f_m) (Finite 0)"
  shows "secant_step_nan rnd f eps_y eps_x n a_n b_n p = ReturnN None"
proof -
  have nostall: "\<not> (case p of None \<Rightarrow> False | Some q \<Rightarrow> fl_eq q m)"
  proof
    assume "case p of None \<Rightarrow> False | Some q \<Rightarrow> fl_eq q m"
    then obtain x where p: "p = Some (Finite x)" and m: "m = Finite x"
      by (auto simp: fl_eq_Finite split: option.splits)
    from ck [unfolded checkpoint_opposed_def p] m fm obtain v
      where v: "f_m = Finite v" "v \<noteq> 0"
        and opp: "\<And>u. f a_n = Inr (Finite u) \<or> f b_n = Inr (Finite u) \<Longrightarrow> u * v < 0 \<Longrightarrow>
            rnd (u * v) < 0"
      by auto
    from secant_estimate_nan_is_finite [OF est [unfolded m]] obtain u w
      where uw: "f_a = Finite u" "f_b = Finite w"
      by blast
    from br fa fb uw have sg: "u * w < 0"
      by (auto simp: bracketed_nan_def)
    from pa pb have r: "\<not> rnd (u * v) < 0" "\<not> rnd (w * v) < 0"
      by (simp_all add: uw v)
    from opposite_signs_one_negative [OF sg v(2)] show False
    proof
      assume "u * v < 0"
      with opp [of u] fa uw(1) r(1) show False by simp
    next
      assume "w * v < 0"
      with opp [of w] fb uw(2) r(2) show False by simp
    qed
  qed
  show ?thesis
    using nostall ex ey pa pb by (simp add: secant_step_nan_def fa fb est fm Let_def)
qed

lemma secant_estimate_nan_of_nan:
  "f_a = NaN \<or> f_b = NaN \<Longrightarrow> secant_estimate_nan rnd a_n b_n f_a f_b = Inr NaN"
  by (cases a_n; cases b_n; cases f_a; cases f_b) (auto simp: secant_estimate_nan_def)

section \<open>Runs on objectives with a NaN value\<close>

lemma rnd53_minus_one: "rnd53 (- 1) = - 1"
  using rnd53_int [of "- 1"] by simp

lemma eps53_bounds: "0 < rnd53 (1 / 10 ^ 6)" "rnd53 (1 / 10 ^ 6) < 1"
  unfolding eps53 by simp_all

lemma nan_inside_values:
  "nan_inside_objective (Finite 0) = Inr (Finite (- 1))"
  "nan_inside_objective (Finite 10) = Inr (Finite 1)"
  "nan_inside_objective (Finite 5) = Inr NaN"
  by (simp_all add: nan_inside_objective_def)

lemma nan_inside_estimate:
  "secant_estimate_nan rnd53 (Finite 0) (Finite 10) (Finite (- 1)) (Finite 1) = Inr (Finite 5)"
proof -
  have 1: "rnd53 (10 - 0) = 10"
    by (simp only: diff_zero rnd53_ten)
  have "- 1 * 10 = (of_int (- 10) :: real)" by simp
  also have "rnd53 \<dots> = of_int (- 10)"
    by (rule rnd53_int) simp
  finally have 2: "rnd53 (- 1 * 10) = - 10" by simp
  have "1 - - 1 = (of_int 2 :: real)" by simp
  also have "rnd53 \<dots> = of_int 2"
    by (rule rnd53_int) simp
  finally have 3: "rnd53 (1 - - 1) = 2" by simp
  have 4: "- 10 / 2 = (- 5 :: real)" by simp
  have 5: "rnd53 (- 5) = - 5"
    using rnd53_int [of "- 5"] by simp
  have 6: "rnd53 (0 - - 5) = 5"
    using rnd53_int [of 5] by simp
  have e: "secant_estimate rnd53 0 10 (- 1) 1 = 5"
    by (simp only: secant_estimate_def 1 2 3 4 5 6)
  have nz: "rnd53 (1 - - 1) \<noteq> 0"
    unfolding 3 by simp
  have "secant_estimate_nan rnd53 (Finite 0) (Finite 10) (Finite (- 1)) (Finite 1) =
      Inr (Finite (secant_estimate rnd53 0 10 (- 1) 1))"
    by (rule secant_estimate_nan_finite(1)) (rule nz)
  then show ?thesis
    unfolding e .
qed

lemma nan_inside_state:
  "secant_state_nan rnd53 nan_inside_objective eps_y eps_x (Finite 0) (Finite 10) (Suc 0) =
     Some (Finite 0, Finite 10, None)"
  using rnd53_minus_one by (simp add: nan_inside_values)

lemma nan_inside_width:
  "\<not> fl_less (fl_abs (fl_sub rnd53 (Finite 10) (Finite 0))) (Finite (rnd53 (1 / 10 ^ 6)))"
proof -
  have "rnd53 (10 - 0) = 10"
    by (simp only: diff_zero rnd53_ten)
  then have "fl_abs (fl_sub rnd53 (Finite 10) (Finite 0)) = Finite 10"
    by (simp only: fl_sub.simps fl_abs.simps abs_numeral)
  then show ?thesis
    using eps53_bounds(2) by simp
qed

lemma nan_at_zero_values:
  "nan_at_zero_objective v (Finite 0) = Inr NaN"
  "nan_at_zero_objective v (Finite 10) = Inr (Finite 1)"
  "nan_at_zero_objective v NaN = Inr v"
  by (simp_all add: nan_at_zero_objective_def)

lemma nan_at_zero_state:
  "secant_state_nan rnd53 (nan_at_zero_objective v) eps_y eps_x (Finite 0) (Finite 10) (Suc 0) =
     Some (Finite 0, Finite 10, None)"
  by (simp add: nan_at_zero_values)

lemma nan_at_zero_estimate:
  "secant_estimate_nan rnd53 (Finite 0) (Finite 10) NaN (Finite 1) = Inr NaN"
  by (rule secant_estimate_nan_of_nan) simp

lemma nan_at_zero_step:
  "secant_step_nan rnd53 (nan_at_zero_objective v) (rnd53 (1 / 10 ^ 6)) (rnd53 (1 / 10 ^ 6)) (Suc 0)
      (Finite 0) (Finite 10) None =
     (if fl_less (fl_abs v) (Finite (rnd53 (1 / 10 ^ 6))) then ReturnN (Some NaN)
      else if fl_less (fl_mul rnd53 (Finite 1) v) (Finite 0) then ContinueN NaN (Finite 10) None
      else ReturnN None)"
proof -
  have pa: "\<not> fl_less (fl_mul rnd53 NaN v) (Finite 0)"
    by simp
  have n: "\<not> (Suc 0 mod 100 = 0 \<and> (case None of None \<Rightarrow> False | Some p \<Rightarrow> fl_eq p NaN))"
    by simp
  have k: "\<not> (Suc 0 mod 100 = 0 \<and> (None :: pyfloat option) = None)"
    by simp
  show ?thesis
    unfolding secant_step_nan_def nan_at_zero_values sum.case nan_at_zero_estimate Let_def
    using n k nan_inside_width pa by (simp only: if_False if_True)
qed

lemma nan_to_negative_step:
  "secant_step_nan rnd53 (nan_at_zero_objective (Finite (- 1)))
      (rnd53 (1 / 10 ^ 6)) (rnd53 (1 / 10 ^ 6)) (Suc 0) (Finite 0) (Finite 10) None =
     ContinueN NaN (Finite 10) None"
proof -
  have y: "\<not> fl_less (fl_abs (Finite (- 1))) (Finite (rnd53 (1 / 10 ^ 6)))"
    using eps53_bounds(2) by simp
  have pb: "fl_less (fl_mul rnd53 (Finite 1) (Finite (- 1))) (Finite 0)"
    using rnd53_minus_one by simp
  show ?thesis
    unfolding nan_at_zero_step using y pb by (simp only: if_False if_True)
qed

lemma nan_to_zero_run:
  "secant_nan rnd53 (nan_at_zero_objective (Finite 0)) (Finite 0) (Finite 10) 2000
      (rnd53 (1 / 10 ^ 6)) (rnd53 (1 / 10 ^ 6)) = Inr (Some NaN)"
proof -
  have y: "fl_less (fl_abs (Finite 0)) (Finite (rnd53 (1 / 10 ^ 6)))"
    using eps53_bounds(1) by simp
  have step: "secant_step_nan rnd53 (nan_at_zero_objective (Finite 0))
      (rnd53 (1 / 10 ^ 6)) (rnd53 (1 / 10 ^ 6)) (Suc 0) (Finite 0) (Finite 10) None =
     ReturnN (Some NaN)"
    unfolding nan_at_zero_step using y by (simp only: if_True)
  have n: "Suc 0 \<le> 2000" by simp
  have "secant_nan rnd53 (nan_at_zero_objective (Finite 0)) (Finite 0) (Finite 10) 2000
      (rnd53 (1 / 10 ^ 6)) (rnd53 (1 / 10 ^ 6)) =
    secant_loop_nan rnd53 (nan_at_zero_objective (Finite 0)) 2000
      (rnd53 (1 / 10 ^ 6)) (rnd53 (1 / 10 ^ 6)) (Suc 0) (Finite 0) (Finite 10) None"
    by (rule secant_state_nan_run) (rule nan_at_zero_state)
  also have "\<dots> = Inr (Some NaN)"
    unfolding secant_loop_nan_unfold [OF n] step outcome_nan.case ..
  finally show ?thesis .
qed

lemma nan_to_positive_tests:
  "\<not> fl_less (fl_abs (Finite 1)) (Finite (rnd53 (1 / 10 ^ 6)))"
  "\<not> fl_less (fl_mul rnd53 NaN (Finite 1)) (Finite 0)"
  "\<not> fl_less (fl_mul rnd53 (Finite 1) (Finite 1)) (Finite 0)"
  using eps53_bounds(2) rnd53_one by simp_all

section \<open>Binary64 with gradual underflow\<close>

lemma rnd64_normal: "\<not> \<bar>x\<bar> < 1 / 2 ^ 1022 \<Longrightarrow> rnd64 x = rnd53 x"
  by (simp only: rnd64_def if_False)

lemma rnd64_subnormal:
  "\<bar>x\<bar> < 1 / 2 ^ 1022 \<Longrightarrow> rnd64 x = of_int (round_half_even (x * 2 ^ 1074)) / 2 ^ 1074"
  by (simp only: rnd64_def if_True)

lemma rnd64_subnormal_int:
  assumes "\<bar>m\<bar> < 2 ^ 52"
  shows "rnd64 (of_int m / 2 ^ 1074) = of_int m / 2 ^ 1074"
proof -
  have p: "(2 :: real) ^ 1074 = 2 ^ 52 * 2 ^ 1022"
    by (simp only: power_add [symmetric]) simp
  have "\<bar>real_of_int m\<bar> < 2 ^ 52"
    using assms by (metis of_int_abs of_int_less_numeral_power_cancel_iff)
  then have "\<bar>real_of_int m\<bar> / 2 ^ 1074 < 2 ^ 52 / 2 ^ 1074"
    by (rule divide_strict_right_mono) simp
  also have "(2 :: real) ^ 52 / 2 ^ 1074 = 1 / 2 ^ 1022"
    unfolding p by simp
  finally have "\<bar>real_of_int m\<bar> / 2 ^ 1074 < 1 / 2 ^ 1022" .
  moreover have "\<bar>(2 :: real) ^ 1074\<bar> = 2 ^ 1074"
    by simp
  ultimately have s: "\<bar>of_int m / 2 ^ 1074 :: real\<bar> < 1 / 2 ^ 1022"
    by (simp only: abs_divide)
  have c: "of_int m / 2 ^ 1074 * 2 ^ 1074 = (of_int m :: real)"
    by simp
  show ?thesis
    by (simp only: rnd64_subnormal [OF s] c round_half_even_of_int)
qed

lemma rnd64_neg: "rnd64 x < 0 \<Longrightarrow> x < 0"
proof (cases "\<bar>x\<bar> < 1 / 2 ^ 1022")
  case True
  assume "rnd64 x < 0"
  then have "real_of_int (round_half_even (x * 2 ^ 1074)) / 2 ^ 1074 < 0"
    by (simp only: rnd64_subnormal [OF True])
  then have "real_of_int (round_half_even (x * 2 ^ 1074)) < 0"
    by (simp only: divide_less_0_iff) simp
  then have "round_half_even (x * 2 ^ 1074) < 0"
    by simp
  with round_half_even_bounds(1) [of "x * 2 ^ 1074"] have "\<lfloor>x * 2 ^ 1074\<rfloor> < 0"
    by linarith
  then have "x * 2 ^ 1074 < 0"
    by (simp only: floor_less_zero)
  then show ?thesis
    by (simp only: mult_less_0_iff) simp
next
  case False
  assume "rnd64 x < 0"
  then show ?thesis
    by (simp only: rnd64_normal [OF False] sign_faithful_neg [OF sign_faithful_rnd53])
qed

lemma eps53_lower: "1 / 2 ^ 20 \<le> rnd53 (1 / 10 ^ 6)"
  unfolding eps53 by simp

lemma rnd64_keeps_signs: "keeps_signs_above rnd64 (rnd53 (1 / 10 ^ 6))"
proof -
  have "rnd64 (x * y) < 0"
    if x: "\<not> \<bar>x\<bar> < rnd53 (1 / 10 ^ 6)" and y: "\<not> \<bar>y\<bar> < rnd53 (1 / 10 ^ 6)" and n: "x * y < 0"
    for x y
  proof -
    from x eps53_lower have x': "1 / 2 ^ 20 \<le> \<bar>x\<bar>" by linarith
    from y eps53_lower have y': "1 / 2 ^ 20 \<le> \<bar>y\<bar>" by linarith
    have "(1 / 2 ^ 20) * (1 / 2 ^ 20) \<le> \<bar>x\<bar> * \<bar>y\<bar>"
      by (rule mult_mono [OF x' y']) simp_all
    then have lo: "1 / 2 ^ 40 \<le> \<bar>x * y\<bar>"
      by (simp add: abs_mult)
    have "(1 :: real) / 2 ^ 1022 \<le> 1 / 2 ^ 40"
      by (rule divide_left_mono) simp_all
    with lo have "\<not> \<bar>x * y\<bar> < 1 / 2 ^ 1022"
      by linarith
    then have "rnd64 (x * y) = rnd53 (x * y)"
      by (rule rnd64_normal)
    with n show ?thesis
      by (simp only: sign_faithful_neg [OF sign_faithful_rnd53])
  qed
  then show ?thesis
    unfolding keeps_signs_above_def using rnd64_neg by blast
qed

section \<open>A product that underflows\<close>

lemma rnd64_ten: "rnd64 (10 - 0) = 10"
proof -
  have "(1 :: real) / 2 ^ 1022 \<le> 1" by simp
  then have "\<not> \<bar>10 - 0 :: real\<bar> < 1 / 2 ^ 1022" by simp
  then have "rnd64 (10 - 0) = rnd53 (10 - 0)"
    by (rule rnd64_normal)
  then show ?thesis
    by (simp only: diff_zero rnd53_ten)
qed

lemma rnd64_least_times_ten: "rnd64 (1 / 2 ^ 1074 * 10) = 10 / 2 ^ 1074"
  using rnd64_subnormal_int [of 10] by simp

lemma rnd53_near_minus_one: "rnd53 (- 1 - 1 / 2 ^ 1074) = - 1"
proof -
  let ?x = "- 1 - 1 / 2 ^ 1074 :: real"
  have a: "\<bar>?x\<bar> = 1 + 1 / 2 ^ 1074"
    by simp
  have lo: "2 powi (- 52 + 52) \<le> \<bar>?x\<bar>"
    unfolding a by simp
  have "(1 :: real) / 2 ^ 1074 < 1" by simp
  then have hi: "\<bar>?x\<bar> < 2 powi (- 52 + 53)"
    unfolding a by simp
  have e: "rnd53 ?x = of_int (round_half_even (?x / 2 powi (- 52))) * 2 powi (- 52)"
    by (rule rnd53_eval [OF lo hi])
  have q: "?x / 2 powi (- 52) = - (2 ^ 52) - 1 / 2 ^ 1022"
  proof -
    have "(2 :: real) ^ 1074 = 2 ^ 52 * 2 ^ 1022"
      by (simp only: power_add [symmetric]) simp
    then show ?thesis
      by (simp add: power_int_minus field_simps)
  qed
  have fl: "\<lfloor>- (2 ^ 52) - 1 / 2 ^ 1022 :: real\<rfloor> = - (2 ^ 52) - 1"
  proof (rule floor_unique)
    show "of_int (- (2 ^ 52) - 1) \<le> (- (2 ^ 52) - 1 / 2 ^ 1022 :: real)"
      by simp
    show "(- (2 ^ 52) - 1 / 2 ^ 1022 :: real) < of_int (- (2 ^ 52) - 1) + 1"
      by simp
  qed
  have r: "round_half_even (- (2 ^ 52) - 1 / 2 ^ 1022) = - (2 ^ 52)"
    unfolding round_half_even_def fl Let_def by simp
  show ?thesis
    unfolding e q r by (simp add: power_int_minus)
qed

lemma rnd64_near_minus_one: "rnd64 (- 1 - 1 / 2 ^ 1074) = - 1"
proof -
  have "(1 :: real) / 2 ^ 1022 \<le> 1" by simp
  then have "\<not> \<bar>- 1 - 1 / 2 ^ 1074 :: real\<bar> < 1 / 2 ^ 1022" by simp
  then have "rnd64 (- 1 - 1 / 2 ^ 1074) = rnd53 (- 1 - 1 / 2 ^ 1074)"
    by (rule rnd64_normal)
  then show ?thesis
    by (simp only: rnd53_near_minus_one)
qed

lemma rnd64_minus_ten_least: "rnd64 (10 / 2 ^ 1074 / - 1) = - (10 / 2 ^ 1074)"
  using rnd64_subnormal_int [of "- 10"] by simp

lemma rnd64_plus_ten_least: "rnd64 (0 - - (10 / 2 ^ 1074)) = 10 / 2 ^ 1074"
  using rnd64_subnormal_int [of 10] by simp

lemma rnd64_underflow: "rnd64 (1 / 2 ^ 1074 * - (1 / 2 ^ 10)) = 0"
proof -
  let ?x = "1 / 2 ^ 1074 * - (1 / 2 ^ 10) :: real"
  have "\<bar>?x\<bar> = 1 / 2 ^ 1074 * (1 / 2 ^ 10)"
    by (simp add: abs_mult)
  also have "\<dots> \<le> 1 / 2 ^ 1074 * 1"
    by (rule mult_left_mono) simp_all
  also have "\<dots> < 1 / 2 ^ 1022"
    by simp
  finally have s: "\<bar>?x\<bar> < 1 / 2 ^ 1022" .
  have c: "?x * 2 ^ 1074 = - (1 / 2 ^ 10)"
    by simp
  have fl: "\<lfloor>- (1 / 2 ^ 10) :: real\<rfloor> = - 1"
    by (rule floor_unique) simp_all
  have r: "round_half_even (- (1 / 2 ^ 10)) = 0"
    unfolding round_half_even_def fl Let_def by simp
  show ?thesis
    unfolding rnd64_subnormal [OF s] c r by simp
qed

lemma rnd64_small_product: "rnd64 (- 1 * - (1 / 2 ^ 10)) = 1 / 2 ^ 10"
proof -
  have "(1 :: real) / 2 ^ 1022 \<le> 1 / 2 ^ 10"
    by (rule divide_left_mono) simp_all
  then have "\<not> \<bar>- 1 * - (1 / 2 ^ 10) :: real\<bar> < 1 / 2 ^ 1022"
    by simp
  then have "rnd64 (- 1 * - (1 / 2 ^ 10)) = rnd53 (- 1 * - (1 / 2 ^ 10))"
    by (rule rnd64_normal)
  also have "\<dots> = 1 / 2 ^ 10"
    using rnd53_int_over_power2 [of 1 10] by simp
  finally show ?thesis .
qed

lemma rnd64_least_negated: "rnd64 (1 / 2 ^ 1074 * - 1) = - (1 / 2 ^ 1074)"
  using rnd64_subnormal_int [of "- 1"] by simp

lemma underflow_values:
  "underflow_objective (Finite 0) = Inr (Finite (1 / 2 ^ 1074))"
  "underflow_objective (Finite 10) = Inr (Finite (- 1))"
  "underflow_objective (Finite (10 / 2 ^ 1074)) = Inr (Finite (- (1 / 2 ^ 10)))"
  by (simp_all add: underflow_objective_def)

lemma underflow_state:
  "secant_state_nan rnd64 underflow_objective eps_y eps_x (Finite 0) (Finite 10) (Suc 0) =
     Some (Finite 0, Finite 10, None)"
proof -
  have "\<not> fl_le (Finite 0) (fl_mul rnd64 (Finite (1 / 2 ^ 1074)) (Finite (- 1)))"
    unfolding fl_mul.simps rnd64_least_negated by simp
  then show ?thesis
    unfolding secant_state_nan.simps underflow_values sum.case by (simp only: if_False)
qed

lemma underflow_estimate:
  "secant_estimate_nan rnd64 (Finite 0) (Finite 10) (Finite (1 / 2 ^ 1074)) (Finite (- 1)) =
     Inr (Finite (10 / 2 ^ 1074))"
proof -
  have nz: "(- 1 :: real) \<noteq> 0"
    by simp
  have d: "fl_div rnd64 (Finite (10 / 2 ^ 1074)) (Finite (- 1)) =
      Inr (Finite (- (10 / 2 ^ 1074)))"
    using nz by (simp only: fl_div.simps if_False pyfloat.case rnd64_minus_ten_least)
  show ?thesis
    unfolding secant_estimate_nan_def fl_sub.simps fl_mul.simps rnd64_ten rnd64_least_times_ten
      rnd64_near_minus_one d sum.case rnd64_plus_ten_least ..
qed

lemma underflow_width:
  "\<not> fl_less (fl_abs (fl_sub rnd64 (Finite 10) (Finite 0))) (Finite (rnd53 (1 / 10 ^ 6)))"
  unfolding fl_sub.simps rnd64_ten using eps53_bounds(2) by simp

lemma underflow_tests:
  "\<not> fl_less (fl_abs (Finite (- (1 / 2 ^ 10)))) (Finite (rnd53 (1 / 10 ^ 6)))"
  "\<not> fl_less (fl_mul rnd64 (Finite (1 / 2 ^ 1074)) (Finite (- (1 / 2 ^ 10)))) (Finite 0)"
  "\<not> fl_less (fl_mul rnd64 (Finite (- 1)) (Finite (- (1 / 2 ^ 10)))) (Finite 0)"
proof -
  show "\<not> fl_less (fl_abs (Finite (- (1 / 2 ^ 10)))) (Finite (rnd53 (1 / 10 ^ 6)))"
    unfolding eps53 by simp
  show "\<not> fl_less (fl_mul rnd64 (Finite (1 / 2 ^ 1074)) (Finite (- (1 / 2 ^ 10)))) (Finite 0)"
    unfolding fl_mul.simps rnd64_underflow by simp
  show "\<not> fl_less (fl_mul rnd64 (Finite (- 1)) (Finite (- (1 / 2 ^ 10)))) (Finite 0)"
    unfolding fl_mul.simps rnd64_small_product by simp
qed

section \<open>No sign change across the bracket\<close>

text \<open>
  C3. When the product of the objective's values at the two ends is not negative,
  \<open>secant\<close> returns \<open>None\<close> from the sign test: whatever the iteration budget and the
  tolerances, whatever the objective does anywhere else, and without raising. So a
  series of float amounts whose net present values at the rates 0 and 10 have a product
  that is not negative makes \<open>xirr\<close> return \<open>None\<close>, for either value of \<open>silent\<close>.
\<close>

theorem no_sign_change_no_result:
  "(f a = Inr f_a \<longrightarrow> f b = Inr f_b \<longrightarrow> 0 \<le> rnd (f_a * f_b)
      \<longrightarrow> secant rnd f a b N eps_y eps_x = Inr None) \<and>
   (map (\<lambda>(dt, amount). (dt, rnd amount)) cash_flow = cash_flow
      \<longrightarrow> xnpv rnd 0 cash_flow False False = Inr v0
      \<longrightarrow> xnpv rnd 10 cash_flow False False = Inr v10
      \<longrightarrow> 0 \<le> rnd (v0 * v10)
      \<longrightarrow> xirr rnd cash_flow guess silent = Inr None)"
proof (intro conjI impI)
  assume "f a = Inr f_a" "f b = Inr f_b" "0 \<le> rnd (f_a * f_b)"
  then show "secant rnd f a b N eps_y eps_x = Inr None"
    by (rule secant_no_sign_change)
next
  assume fl: "map (\<lambda>(dt, amount). (dt, rnd amount)) cash_flow = cash_flow"
    and v0: "xnpv rnd 0 cash_flow False False = Inr v0"
    and v10: "xnpv rnd 10 cash_flow False False = Inr v10"
    and sg: "0 \<le> rnd (v0 * v10)"
  from v0 have ne: "sort_key fst cash_flow \<noteq> []"
    by (auto simp: xnpv_def)
  then obtain cfd where d: "day_offsets rnd cash_flow = Inr cfd"
    by (cases "sort_key fst cash_flow") (auto simp: day_offsets_def fl Let_def)
  have "xnpv rnd 0 cfd True True = Inr v0" "xnpv rnd 10 cfd True True = Inr v10"
    using xnpv_day_offsets [OF d fl] v0 v10 by simp_all
  then have "secant rnd (\<lambda>r. xnpv rnd r cfd True True) 0 10 2000 (rnd (1 / 10 ^ 6)) (rnd (1 / 10 ^ 6)) = Inr None"
    using sg by (intro secant_no_sign_change) auto
  then show "xirr rnd cash_flow guess silent = Inr None"
    by (simp add: xirr_def xirr_solve_def d)
qed

theorem no_sign_change_no_result_witness:
  "secant exact (\<lambda>x. Inr (x * x + 1)) 0 1 5 (1 / 10 ^ 6) (1 / 10 ^ 6) = Inr None \<and>
   xnpv exact 0 [(0, 1), (365, 1)] False False = Inr 2 \<and>
   xnpv exact 10 [(0, 1), (365, 1)] False False = Inr (12 / 11) \<and>
   xirr exact [(0, 1), (365, 1)] () False = Inr None"
proof -
  have 1: "secant exact (\<lambda>x. Inr (x * x + 1)) 0 1 5 (1 / 10 ^ 6) (1 / 10 ^ 6) = Inr None"
    using no_sign_change_no_result [of "\<lambda>x. Inr (x * x + 1)" 0 1 1 2 exact, THEN conjunct1]
    by (simp add: exact_def)
  have v0: "xnpv exact 0 [(0, 1), (365, 1)] False False = Inr 2"
    by (simp add: xnpv_two_exact)
  have v10: "xnpv exact 10 [(0, 1), (365, 1)] False False = Inr (12 / 11)"
    by (simp add: xnpv_two_exact)
  have 2: "xirr exact [(0, 1), (365, 1)] () False = Inr None"
    using no_sign_change_no_result [of _ _ _ _ _ exact _ _ _ "[(0, 1), (365, 1)]" 2 "12 / 11" "()" False,
        THEN conjunct2] v0 v10
    by (simp add: exact_def)
  from 1 v0 v10 2 show ?thesis by simp
qed


section \<open>The net present value at rate 0\<close>

text \<open>
  C5, as stated, fails. In binary64 the evaluator adds the amounts one at a time, in
  date order, and rounds after each addition. For the series of \<open>2 ^ 60\<close> on day 1,
  \<open>1 / 2 ^ 40\<close> on day 0, \<open>-(2 ^ 60)\<close> on day 2 and \<open>1 / 2 ^ 40\<close> on day 0, read
  with \<open>sorted_\<close> false, the net present value at rate 0 is 0. The sum of the amounts is
  \<open>1 / 2 ^ 39\<close>, and the amounts added in floating point in the order of the series
  give \<open>1 / 2 ^ 40\<close>.
\<close>

theorem xnpv_rate_zero_counterexample:
  "xnpv rnd53 0 [(1, 2 ^ 60), (0, 1 / 2 ^ 40), (2, - (2 ^ 60)), (0, 1 / 2 ^ 40)] False True = Inr 0 \<and>
   xnpv rnd53 0 [(1, 2 ^ 60), (0, 1 / 2 ^ 40), (2, - (2 ^ 60)), (0, 1 / 2 ^ 40)] False True \<noteq>
     Inr (sum_list (map snd [(1 :: int, 2 ^ 60 :: real), (0, 1 / 2 ^ 40), (2, - (2 ^ 60)), (0, 1 / 2 ^ 40)])) \<and>
   xnpv rnd53 0 [(1, 2 ^ 60), (0, 1 / 2 ^ 40), (2, - (2 ^ 60)), (0, 1 / 2 ^ 40)] False True \<noteq>
     Inr (foldl (\<lambda>s a. rnd53 (s + a)) 0
       (map snd [(1 :: int, 2 ^ 60 :: real), (0, 1 / 2 ^ 40), (2, - (2 ^ 60)), (0, 1 / 2 ^ 40)]))"
  unfolding unsorted_ties_npv unsorted_ties_float_sum by simp

text \<open>
  C5, amended. For a non-empty series, and either value of each of the two flags: the
  net present value at rate 0 is the running sum of the amounts, each addition rounded,
  started from 0 and taken in the order the evaluator reads the entries, which is the
  order of the series when \<open>sorted_\<close> is true and the date order, entries of one date in
  the order of the series, when it is false. This holds in every arithmetic that
  represents 1. Over exact arithmetic that running sum is the sum of the amounts.
\<close>

theorem xnpv_rate_zero_running_sum:
  assumes "cash_flow \<noteq> []"
  shows "(rnd 1 = 1 \<longrightarrow>
            xnpv rnd 0 cash_flow sorted' already_day_diffs =
              Inr (foldl (\<lambda>x item. rnd (x + rnd (snd item))) 0
                     (if sorted' then cash_flow else sort_key fst cash_flow))) \<and>
         xnpv exact 0 cash_flow sorted' already_day_diffs = Inr (sum_list (map snd cash_flow))"
proof (intro conjI impI)
  assume r: "rnd 1 = 1"
  show "xnpv rnd 0 cash_flow sorted' already_day_diffs =
      Inr (foldl (\<lambda>x item. rnd (x + rnd (snd item))) 0
             (if sorted' then cash_flow else sort_key fst cash_flow))"
    by (rule xnpv_rounded_rate_zero, rule assms, rule r)
next
  from assms show "xnpv exact 0 cash_flow sorted' already_day_diffs = Inr (sum_list (map snd cash_flow))"
    by (rule xnpv_exact_rate_zero)
qed

theorem xnpv_rate_zero_running_sum_witness:
  "[(1, 2 ^ 60), (0, 1 / 2 ^ 40), (2, - (2 ^ 60)), (0, 1 / 2 ^ 40)] \<noteq> ([] :: cash_flows) \<and>
   rnd53 1 = 1 \<and>
   xnpv rnd53 0 [(1, 2 ^ 60), (0, 1 / 2 ^ 40), (2, - (2 ^ 60)), (0, 1 / 2 ^ 40)] False True =
     Inr (foldl (\<lambda>x item. rnd53 (x + rnd53 (snd item))) 0
       [(0 :: int, 1 / 2 ^ 40 :: real), (0, 1 / 2 ^ 40), (1, 2 ^ 60), (2, - (2 ^ 60))]) \<and>
   xnpv exact 0 [(365, 3 / 2), (0, - 1)] False False = Inr (1 / 2) \<and>
   xnpv exact 0 [(365, 3 / 2), (0, - 1)] True True = Inr (1 / 2)"
proof -
  have ne: "[(1, 2 ^ 60), (0, 1 / 2 ^ 40), (2, - (2 ^ 60)), (0, 1 / 2 ^ 40)] \<noteq> ([] :: cash_flows)"
    by simp
  have ne': "[(365, 3 / 2), (0, - 1)] \<noteq> ([] :: cash_flows)"
    by simp
  note a = xnpv_rate_zero_running_sum [OF ne, where rnd = rnd53 and sorted' = False
      and already_day_diffs = True, THEN conjunct1, rule_format]
  note b = xnpv_rate_zero_running_sum [OF ne', where sorted' = False and already_day_diffs = False,
      THEN conjunct2]
  note c = xnpv_rate_zero_running_sum [OF ne', where sorted' = True and already_day_diffs = True,
      THEN conjunct2]
  have s: "sum_list (map snd [(365 :: int, 3 / 2 :: real), (0, - 1)]) = 1 / 2" by simp
  from ne rnd53_one a b c show ?thesis
    by (simp only: if_False unsorted_ties_sorted s simp_thms)
qed

section \<open>A series of one entry\<close>

text \<open>
  C7. A series of one entry is normalised to the day offset 0 and the amount as a float;
  its net present value is that amount at every rate (the exponent is 0), in particular
  at every rate above \<open>-1\<close>; and \<open>xirr\<close> returns \<open>None\<close> without raising, since the
  product of the values at the rates 0 and 10 is a square. This holds in every
  arithmetic that represents 0 and 1, leaves a float as it is and keeps signs: over
  exact arithmetic and in binary64.
\<close>

theorem single_entry_no_result:
  assumes "rnd 0 = 0" "rnd 1 = 1" "rnd (rnd a) = rnd a" "sign_faithful rnd"
  shows "day_offsets rnd [(d, a)] = Inr [(0, rnd a)] \<and>
         (\<forall>r. xnpv rnd r [(0, rnd a)] True True = Inr (rnd a)) \<and>
         xirr rnd [(d, a)] guess silent = Inr None"
proof (intro conjI allI)
  show d: "day_offsets rnd [(d, a)] = Inr [(0, rnd a)]"
    by (rule day_offsets_single_rounded)
  show c: "xnpv rnd r [(0, rnd a)] True True = Inr (rnd a)" for r
    by (rule xnpv_single_rounded) (rule assms)+
  have "0 \<le> rnd (rnd a * rnd a)"
    by (simp add: sign_faithful_nonneg [OF assms(4)])
  then have "secant rnd (\<lambda>r. xnpv rnd r [(0, rnd a)] True True) 0 10 2000
      (rnd (1 / 10 ^ 6)) (rnd (1 / 10 ^ 6)) = Inr None"
    by (intro secant_no_sign_change [where fa = "rnd a" and fb = "rnd a"]) (simp_all add: c)
  then show "xirr rnd [(d, a)] guess silent = Inr None"
    by (simp add: xirr_def xirr_solve_def d)
qed

theorem single_entry_no_result_witness:
  "rnd53 0 = 0 \<and> rnd53 1 = 1 \<and> rnd53 (rnd53 (- (11 / 2 ^ 41))) = rnd53 (- (11 / 2 ^ 41)) \<and>
   sign_faithful rnd53 \<and>
   day_offsets rnd53 [(7, - (11 / 2 ^ 41))] = Inr [(0, - (11 / 2 ^ 41))] \<and>
   xnpv rnd53 (1 / 2) [(0, - (11 / 2 ^ 41))] True True = Inr (- (11 / 2 ^ 41)) \<and>
   xirr rnd53 [(7, - (11 / 2 ^ 41))] () False = Inr None \<and>
   exact 0 = 0 \<and> exact 1 = 1 \<and> exact (exact 3) = exact 3 \<and> sign_faithful exact \<and>
   xirr exact [(7, 3)] () False = Inr None"
proof -
  have i: "rnd53 (rnd53 (- (11 / 2 ^ 41))) = rnd53 (- (11 / 2 ^ 41))"
    by (simp only: rnd53_last_amount)
  have e: "exact 0 = 0" "exact 1 = 1" "exact (exact 3) = exact 3"
    by (simp_all add: exact_def)
  note a = single_entry_no_result [OF rnd53_zero rnd53_one i sign_faithful_rnd53,
      where d = 7 and guess = "()" and silent = False]
  note b = single_entry_no_result [OF e sign_faithful_exact,
      where d = 7 and guess = "()" and silent = False, THEN conjunct2, THEN conjunct2]
  from a have "day_offsets rnd53 [(7, - (11 / 2 ^ 41))] = Inr [(0, - (11 / 2 ^ 41))]"
    and "xnpv rnd53 (1 / 2) [(0, - (11 / 2 ^ 41))] True True = Inr (- (11 / 2 ^ 41))"
    and "xirr rnd53 [(7, - (11 / 2 ^ 41))] () False = Inr None"
    by (simp_all only: rnd53_last_amount)
  with rnd53_zero rnd53_one i sign_faithful_rnd53 e sign_faithful_exact b show ?thesis
    by (simp only: simp_thms)
qed

section \<open>The bracket invariant\<close>

text \<open>
  C10. Over exact arithmetic: when an iteration starts with \<open>a_n < b_n\<close> and values of
  opposite signs at the two ends, the divisor of the secant estimate is not zero, the
  estimate lies strictly between the ends, and a pass that goes on to the next iteration
  replaces one end by the estimate, so that the new bracket lies inside the old one, has
  its left end below its right end and again has values of opposite signs at its ends.
  So a value returned by \<open>secant\<close> for \<open>a < b\<close> lies strictly between \<open>a\<close> and \<open>b\<close>,
  and a rate returned by \<open>xirr\<close> lies strictly between 0 and 10.
\<close>

theorem bracket_invariant:
  "(a_n < b_n \<longrightarrow> f a_n = Inr f_a_n \<longrightarrow> f b_n = Inr f_b_n \<longrightarrow> f_a_n * f_b_n < 0 \<longrightarrow>
      f_b_n - f_a_n \<noteq> 0 \<and>
      a_n < secant_estimate exact a_n b_n f_a_n f_b_n \<and>
      secant_estimate exact a_n b_n f_a_n f_b_n < b_n \<and>
      (\<forall>a' b' p'. secant_step exact f eps_y eps_x n a_n b_n p = Continue a' b' p' \<longrightarrow>
         (a' = a_n \<and> b' = secant_estimate exact a_n b_n f_a_n f_b_n \<or>
          a' = secant_estimate exact a_n b_n f_a_n f_b_n \<and> b' = b_n) \<and>
         a' < b' \<and> a_n \<le> a' \<and> b' \<le> b_n \<and>
         (\<exists>f_a' f_b'. f a' = Inr f_a' \<and> f b' = Inr f_b' \<and> f_a' * f_b' < 0))) \<and>
   (a < b \<longrightarrow> secant exact f a b N eps_y eps_x = Inr (Some r) \<longrightarrow> a < r \<and> r < b) \<and>
   (xirr exact cash_flow guess silent = Inr (Some r') \<longrightarrow> 0 < r' \<and> r' < 10)"
proof (intro conjI impI allI)
  assume ab: "a_n < b_n" and fa: "f a_n = Inr f_a_n" and fb: "f b_n = Inr f_b_n"
    and sg: "f_a_n * f_b_n < 0"
  show "f_b_n - f_a_n \<noteq> 0" using sg by auto
  show "a_n < secant_estimate exact a_n b_n f_a_n f_b_n"
    and "secant_estimate exact a_n b_n f_a_n f_b_n < b_n"
    using estimate_inside [OF ab sg] by (simp_all add: secant_estimate_exact)
  fix a' b' p'
  assume st: "secant_step exact f eps_y eps_x n a_n b_n p = Continue a' b' p'"
  have br: "bracketed f a_n b_n"
    using ab fa fb sg by (auto simp: bracketed_def)
  from step_continue_bracketed [OF br st]
  show "a' < b'" and "a_n \<le> a'" and "b' \<le> b_n"
    and "\<exists>f_a' f_b'. f a' = Inr f_a' \<and> f b' = Inr f_b' \<and> f_a' * f_b' < 0"
    by (auto simp: bracketed_def)
  from st show "a' = a_n \<and> b' = secant_estimate exact a_n b_n f_a_n f_b_n \<or>
      a' = secant_estimate exact a_n b_n f_a_n f_b_n \<and> b' = b_n"
    by (auto simp: secant_step_def fa fb Let_def split: sum.splits if_splits)
next
  assume "a < b" "secant exact f a b N eps_y eps_x = Inr (Some r)"
  then show "a < r" "r < b" using secant_inside by blast+
next
  assume x: "xirr exact cash_flow guess silent = Inr (Some r')"
  then obtain cfd where
    "secant exact (\<lambda>r. xnpv exact r cfd True True) 0 10 2000 (1 / 10 ^ 6) (1 / 10 ^ 6) = Inr (Some r')"
    by (auto simp: xirr_def xirr_solve_def exact_def split: sum.splits error.splits if_splits)
  from secant_inside [OF _ this] show "0 < r'" "r' < 10" by simp_all
qed

lemma step_square:
  "secant_step exact (\<lambda>x. Inr (x * x - 2)) (1 / 10 ^ 6) (1 / 10 ^ 6) 1 0 2 None = Continue 1 2 None"
  by (simp add: secant_step_def secant_estimate_exact Let_def exact_def)

theorem bracket_invariant_witness:
  "secant_step exact (\<lambda>x. Inr (x * x - 2)) (1 / 10 ^ 6) (1 / 10 ^ 6) 1 0 2 None = Continue 1 2 None \<and>
   secant_estimate exact 0 2 (- 2) 2 = 1 \<and> (0 :: real) < 1 \<and> (1 :: real) < 2 \<and>
   (\<exists>f_a' f_b'. (1 :: real) * 1 - 2 = f_a' \<and> (2 :: real) * 2 - 2 = f_b' \<and> f_a' * f_b' < 0) \<and>
   xirr exact [(0, - (1 / 2 ^ 30)), (365, 3 / 2 ^ 31)] () False = Inr (Some (11 / 3)) \<and>
   (0 :: real) < 11 / 3 \<and> (11 / 3 :: real) < 10"
proof -
  let ?f = "\<lambda>x :: real. Inr (x * x - 2) :: error + real"
  note step = bracket_invariant [where a_n = 0 and b_n = 2 and f = ?f and f_a_n = "- 2"
      and f_b_n = 2 and eps_y = "1 / 10 ^ 6" and eps_x = "1 / 10 ^ 6" and n = 1 and p = None,
      THEN conjunct1]
  note rate = bracket_invariant [where cash_flow = "[(0, - (1 / 2 ^ 30)), (365, 3 / 2 ^ 31)]"
      and guess = "()" and silent = False and r' = "11 / 3", THEN conjunct2, THEN conjunct2]
  have e: "secant_estimate exact 0 2 (- 2) 2 = 1"
    by (simp add: secant_estimate_exact)
  from step have "\<exists>f_a' f_b'. ?f 1 = Inr f_a' \<and> ?f 2 = Inr f_b' \<and> f_a' * f_b' < 0"
    using step_square by simp
  moreover from rate have "(0 :: real) < 11 / 3 \<and> (11 / 3 :: real) < 10"
    using xirr_small_amounts [of "()" False] by simp
  ultimately show ?thesis
    using step_square e xirr_small_amounts [of "()" False] by simp
qed


section \<open>The order of the entries\<close>

text \<open>
  C6, as stated, fails. \<open>xirr\<close> sorts by date only, and the sort is stable: entries of
  one date stay in the order of the input, and in binary64 the net present value depends
  on the order in which they are added. The two series below are permutations of each
  other; on the first, \<open>xirr\<close> returns the rate 9, on the second it returns \<open>None\<close>.
\<close>

theorem xirr_permutation_counterexample:
  "mset [(0, 2 ^ 60), (0, - (2 ^ 60)), (0, 1 / 2 ^ 40), (365, - (11 / 2 ^ 41))] =
     mset [(0 :: int, 2 ^ 60 :: real), (0, 1 / 2 ^ 40), (0, - (2 ^ 60)), (365, - (11 / 2 ^ 41))] \<and>
   xirr rnd53 [(0, 2 ^ 60), (0, - (2 ^ 60)), (0, 1 / 2 ^ 40), (365, - (11 / 2 ^ 41))] () False \<noteq>
     xirr rnd53 [(0, 2 ^ 60), (0, 1 / 2 ^ 40), (0, - (2 ^ 60)), (365, - (11 / 2 ^ 41))] () False"
proof
  show "mset [(0, 2 ^ 60), (0, - (2 ^ 60)), (0, 1 / 2 ^ 40), (365, - (11 / 2 ^ 41))] =
      mset [(0 :: int, 2 ^ 60 :: real), (0, 1 / 2 ^ 40), (0, - (2 ^ 60)), (365, - (11 / 2 ^ 41))]"
    by (simp add: add_mset_commute)
  show "xirr rnd53 [(0, 2 ^ 60), (0, - (2 ^ 60)), (0, 1 / 2 ^ 40), (365, - (11 / 2 ^ 41))] () False \<noteq>
      xirr rnd53 [(0, 2 ^ 60), (0, 1 / 2 ^ 40), (0, - (2 ^ 60)), (365, - (11 / 2 ^ 41))] () False"
    unfolding xirr_ties_first xirr_ties_last by simp
qed

text \<open>
  C6, amended. \<open>xirr\<close> gives the same outcome (the same rate, the same \<open>None\<close> or the
  same exception) on a series and on every permutation of it that keeps the entries of
  each date in the same order, in every arithmetic; in particular on every permutation
  of a series whose dates are distinct. Over exact arithmetic it gives the same outcome
  on every permutation.
\<close>

theorem xirr_stable_permutation:
  "(mset cash_flow' = mset cash_flow \<and>
      (\<forall>d. filter (\<lambda>x. fst x = d) cash_flow' = filter (\<lambda>x. fst x = d) cash_flow) \<longrightarrow>
        xirr rnd cash_flow' guess silent = xirr rnd cash_flow guess silent) \<and>
   (mset cash_flow' = mset cash_flow \<and> distinct (map fst cash_flow) \<longrightarrow>
        xirr rnd cash_flow' guess silent = xirr rnd cash_flow guess silent) \<and>
   (mset cash_flow' = mset cash_flow \<longrightarrow>
        xirr exact cash_flow' guess silent = xirr exact cash_flow guess silent)"
proof (intro conjI impI)
  assume "mset cash_flow' = mset cash_flow \<and>
    (\<forall>d. filter (\<lambda>x. fst x = d) cash_flow' = filter (\<lambda>x. fst x = d) cash_flow)"
  then have "sort_key fst cash_flow' = sort_key fst cash_flow"
    by (intro sort_key_same_ties) simp_all
  then show "xirr rnd cash_flow' guess silent = xirr rnd cash_flow guess silent"
    by (rule xirr_sorted)
next
  assume "mset cash_flow' = mset cash_flow \<and> distinct (map fst cash_flow)"
  then have "sort_key fst cash_flow' = sort_key fst cash_flow"
    by (intro sort_key_distinct_keys) simp_all
  then show "xirr rnd cash_flow' guess silent = xirr rnd cash_flow guess silent"
    by (rule xirr_sorted)
next
  assume "mset cash_flow' = mset cash_flow"
  then show "xirr exact cash_flow' guess silent = xirr exact cash_flow guess silent"
    by (rule xirr_exact_permutation)
qed

theorem xirr_stable_permutation_witness:
  "mset [(365, - (11 / 2 ^ 41)), (0, 2 ^ 60), (0, - (2 ^ 60)), (0, 1 / 2 ^ 40)] =
     mset [(0 :: int, 2 ^ 60 :: real), (0, - (2 ^ 60)), (0, 1 / 2 ^ 40), (365, - (11 / 2 ^ 41))] \<and>
   (\<forall>d. filter (\<lambda>x. fst x = d) [(365, - (11 / 2 ^ 41)), (0, 2 ^ 60), (0, - (2 ^ 60)), (0, 1 / 2 ^ 40)] =
        filter (\<lambda>x. fst x = d)
          [(0 :: int, 2 ^ 60 :: real), (0, - (2 ^ 60)), (0, 1 / 2 ^ 40), (365, - (11 / 2 ^ 41))]) \<and>
   xirr rnd53 [(365, - (11 / 2 ^ 41)), (0, 2 ^ 60), (0, - (2 ^ 60)), (0, 1 / 2 ^ 40)] () False =
     Inr (Some 9) \<and>
   mset [(365, 11 * 2 ^ 100), (0, - (2 ^ 100 + 2 ^ 48))] =
     mset [(0 :: int, - (2 ^ 100 + 2 ^ 48) :: real), (365, 11 * 2 ^ 100)] \<and>
   distinct (map fst [(0 :: int, - (2 ^ 100 + 2 ^ 48) :: real), (365, 11 * 2 ^ 100)]) \<and>
   xirr rnd53 [(365, 11 * 2 ^ 100), (0, - (2 ^ 100 + 2 ^ 48))] () False = Inl ConvergenceFailed \<and>
   mset [(365, 3 / 2 ^ 31), (0, - (1 / 2 ^ 30))] =
     mset [(0 :: int, - (1 / 2 ^ 30) :: real), (365, 3 / 2 ^ 31)] \<and>
   xirr exact [(365, 3 / 2 ^ 31), (0, - (1 / 2 ^ 30))] () False = Inr (Some (11 / 3))"
proof -
  have m1: "mset [(365, - (11 / 2 ^ 41)), (0, 2 ^ 60), (0, - (2 ^ 60)), (0, 1 / 2 ^ 40)] =
      mset [(0 :: int, 2 ^ 60 :: real), (0, - (2 ^ 60)), (0, 1 / 2 ^ 40), (365, - (11 / 2 ^ 41))]"
    by (simp add: add_mset_commute)
  have f1: "\<forall>d. filter (\<lambda>x. fst x = d) [(365, - (11 / 2 ^ 41)), (0, 2 ^ 60), (0, - (2 ^ 60)), (0, 1 / 2 ^ 40)] =
      filter (\<lambda>x. fst x = d)
        [(0 :: int, 2 ^ 60 :: real), (0, - (2 ^ 60)), (0, 1 / 2 ^ 40), (365, - (11 / 2 ^ 41))]"
    by auto
  have m2: "mset [(365, 11 * 2 ^ 100), (0, - (2 ^ 100 + 2 ^ 48))] =
      mset [(0 :: int, - (2 ^ 100 + 2 ^ 48) :: real), (365, 11 * 2 ^ 100)]"
    by (simp add: add_mset_commute)
  have d2: "distinct (map fst [(0 :: int, - (2 ^ 100 + 2 ^ 48) :: real), (365, 11 * 2 ^ 100)])"
    by simp
  have x2: "xirr rnd53 [(0, - (2 ^ 100 + 2 ^ 48)), (365, 11 * 2 ^ 100)] () False = Inl ConvergenceFailed"
    unfolding xirr_def large_solve_stalls by simp
  have m3: "mset [(365, 3 / 2 ^ 31), (0, - (1 / 2 ^ 30))] =
      mset [(0 :: int, - (1 / 2 ^ 30) :: real), (365, 3 / 2 ^ 31)]"
    by (simp add: add_mset_commute)
  note a = xirr_stable_permutation [where rnd = rnd53 and guess = "()" and silent = False,
      THEN conjunct1, rule_format, OF conjI, OF m1 f1]
  note b = xirr_stable_permutation [where rnd = rnd53 and guess = "()" and silent = False,
      THEN conjunct2, THEN conjunct1, rule_format, OF conjI, OF m2 d2]
  note c = xirr_stable_permutation [where guess = "()" and silent = False,
      THEN conjunct2, THEN conjunct2, rule_format, OF m3]
  from m1 f1 a m2 d2 b m3 c show ?thesis
    by (simp only: xirr_ties_last x2 xirr_small_amounts simp_thms)
qed

section \<open>Scaling the amounts\<close>

text \<open>
  C2, as stated, fails. The tolerance on the value of the objective is absolute, so
  scaling the amounts changes the iteration at which the solver stops: the series of
  \<open>-1\<close> on day 0 and \<open>3 / 2\<close> on day 365, scaled by \<open>1 / 2 ^ 30\<close>, makes \<open>xirr\<close> return
  the first secant estimate \<open>11 / 3\<close>, which the unscaled series does not return.
\<close>

theorem scaling_counterexample:
  "xirr exact (map (\<lambda>(d, a). (d, (1 / 2 ^ 30) * a)) [(0, - 1), (365, 3 / 2)]) () False
     \<noteq> xirr exact [(0, - 1), (365, 3 / 2)] () False"
proof -
  have "map (\<lambda>(d, a). (d, (1 / 2 ^ 30) * a)) [(0, - 1), (365, 3 / 2)]
      = [(0 :: int, - (1 / 2 ^ 30)), (365, 3 / 2 ^ 31 :: real)]"
    by simp
  then show ?thesis
    using xirr_small_amounts [of "()" False] xirr_unit_amounts [of "()" False]
    by (simp only:) simp
qed

text \<open>
  C2, amended. For a series with day offsets \<open>cfd\<close> and a constant \<open>c > 0\<close>, in every
  arithmetic whose rounding commutes with the multiplication by \<open>c\<close> (every \<open>c\<close> over
  exact arithmetic, the powers of two in binary64): the net present value of the scaled
  series is \<open>c\<close> times that of the series, at every rate, and \<open>xirr\<close> on the scaled
  series has the outcome of the solver on the objective of the unscaled series with the
  tolerance on the value divided by \<open>c\<close>, the bracket, the iteration budget and the
  tolerance on the bracket width unchanged.
\<close>

theorem scaling_rescales_tolerance:
  assumes "0 < c" and "\<forall>x. rnd (c * x) = c * rnd x" and "day_offsets rnd cash_flow = Inr cfd"
  shows "(\<forall>r. xnpv rnd r (map (\<lambda>(d, a). (d, c * a)) cfd) True True =
            map_sum id ((*) c) (xnpv rnd r cfd True True)) \<and>
         xirr rnd (map (\<lambda>(d, a). (d, c * a)) cash_flow) guess silent =
           (case secant rnd (\<lambda>r. xnpv rnd r cfd True True) 0 10 2000
                   (rnd (1 / 10 ^ 6) / c) (rnd (1 / 10 ^ 6)) of
              Inl ConvergenceFailed \<Rightarrow> (if silent then Inr None else Inl ConvergenceFailed)
            | r \<Rightarrow> r)"
proof
  have h: "rnd (c * x) = c * rnd x" for x
    using assms(2) by simp
  have npv: "xnpv rnd r (map (\<lambda>(d, a). (d, c * a)) cfd) True True =
      map_sum id ((*) c) (xnpv rnd r cfd True True)" for r
    by (rule xnpv_scaled) (rule h)
  then show "\<forall>r. xnpv rnd r (map (\<lambda>(d, a). (d, c * a)) cfd) True True =
      map_sum id ((*) c) (xnpv rnd r cfd True True)"
    by simp
  have d: "day_offsets rnd (map (\<lambda>(d, a). (d, c * a)) cash_flow) = Inr (map (\<lambda>(d, a). (d, c * a)) cfd)"
    by (rule day_offsets_scaled, rule h, rule assms(3))
  have "secant rnd (\<lambda>r. xnpv rnd r (map (\<lambda>(d, a). (d, c * a)) cfd) True True) 0 10 2000
          (rnd (1 / 10 ^ 6)) (rnd (1 / 10 ^ 6)) =
        secant rnd (\<lambda>r. map_sum id ((*) c) (xnpv rnd r cfd True True)) 0 10 2000
          (rnd (1 / 10 ^ 6)) (rnd (1 / 10 ^ 6))"
    by (simp only: npv)
  also have "\<dots> = secant rnd (\<lambda>r. xnpv rnd r cfd True True) 0 10 2000
      (rnd (1 / 10 ^ 6) / c) (rnd (1 / 10 ^ 6))"
    by (rule secant_scaled, rule assms(1), rule h)
  finally show "xirr rnd (map (\<lambda>(d, a). (d, c * a)) cash_flow) guess silent =
      (case secant rnd (\<lambda>r. xnpv rnd r cfd True True) 0 10 2000
              (rnd (1 / 10 ^ 6) / c) (rnd (1 / 10 ^ 6)) of
         Inl ConvergenceFailed \<Rightarrow> (if silent then Inr None else Inl ConvergenceFailed)
       | r \<Rightarrow> r)"
    by (simp only: xirr_unfold [OF d])
qed

theorem scaling_rescales_tolerance_witness:
  "(0 :: real) < 1 / 2 ^ 30 \<and>
   (\<forall>x. exact (1 / 2 ^ 30 * x) = 1 / 2 ^ 30 * exact x) \<and>
   day_offsets exact [(0, - 1), (365, 3 / 2)] = Inr [(0, - 1), (365, 3 / 2)] \<and>
   xirr exact (map (\<lambda>(d, a). (d, (1 / 2 ^ 30) * a)) [(0, - 1), (365, 3 / 2)]) () False =
     Inr (Some (11 / 3)) \<and>
   secant exact (\<lambda>r. xnpv exact r [(0, - 1), (365, 3 / 2)] True True) 0 10 2000
     (exact (1 / 10 ^ 6) / (1 / 2 ^ 30)) (exact (1 / 10 ^ 6)) = Inr (Some (11 / 3)) \<and>
   (\<forall>x. rnd53 (1 / 2 ^ 30 * x) = 1 / 2 ^ 30 * rnd53 x) \<and>
   day_offsets rnd53 [(0, - 1), (365, 3 / 2)] = Inr [(0, - 1), (365, 3 / 2)] \<and>
   xirr rnd53 (map (\<lambda>(d, a). (d, (1 / 2 ^ 30) * a)) [(0, - 1), (365, 3 / 2)]) () True =
     (case secant rnd53 (\<lambda>r. xnpv rnd53 r [(0, - 1), (365, 3 / 2)] True True) 0 10 2000
             (rnd53 (1 / 10 ^ 6) / (1 / 2 ^ 30)) (rnd53 (1 / 10 ^ 6)) of
        Inl ConvergenceFailed \<Rightarrow> Inr None
      | r \<Rightarrow> r)"
proof -
  have c: "(0 :: real) < 1 / 2 ^ 30" by simp
  have he: "\<forall>x. exact (1 / 2 ^ 30 * x) = 1 / 2 ^ 30 * exact x"
    by (simp add: exact_def)
  have hr: "\<forall>x. rnd53 (1 / 2 ^ 30 * x) = 1 / 2 ^ 30 * rnd53 x"
    by (simp only: rnd53_scale_small simp_thms)
  have d: "day_offsets exact [(0, - 1), (365, 3 / 2)] = Inr [(0, - 1), (365, 3 / 2)]"
    by (rule day_offsets_two)
  have m: "map (\<lambda>(d, a). (d, (1 / 2 ^ 30) * a)) [(0, - 1), (365, 3 / 2)]
      = [(0 :: int, - (1 / 2 ^ 30)), (365, 3 / 2 ^ 31 :: real)]"
    by simp
  have x: "xirr exact (map (\<lambda>(d, a). (d, (1 / 2 ^ 30) * a)) [(0, - 1), (365, 3 / 2)]) () False =
      Inr (Some (11 / 3))"
    by (simp only: m xirr_small_amounts)
  from scaling_rescales_tolerance [OF c he d, of "()" False, THEN conjunct2]
  have "(case secant exact (\<lambda>r. xnpv exact r [(0, - 1), (365, 3 / 2)] True True) 0 10 2000
              (exact (1 / 10 ^ 6) / (1 / 2 ^ 30)) (exact (1 / 10 ^ 6)) of
           Inl ConvergenceFailed \<Rightarrow> (if False then Inr None else Inl ConvergenceFailed)
         | r \<Rightarrow> r) = Inr (Some (11 / 3))"
    by (simp only: x)
  then have s: "secant exact (\<lambda>r. xnpv exact r [(0, - 1), (365, 3 / 2)] True True) 0 10 2000
      (exact (1 / 10 ^ 6) / (1 / 2 ^ 30)) (exact (1 / 10 ^ 6)) = Inr (Some (11 / 3))"
    by (auto split: sum.splits error.splits)
  from scaling_rescales_tolerance [OF c hr small_day_offsets, of "()" True, THEN conjunct2]
  have r: "xirr rnd53 (map (\<lambda>(d, a). (d, (1 / 2 ^ 30) * a)) [(0, - 1), (365, 3 / 2)]) () True =
      (case secant rnd53 (\<lambda>r. xnpv rnd53 r [(0, - 1), (365, 3 / 2)] True True) 0 10 2000
              (rnd53 (1 / 10 ^ 6) / (1 / 2 ^ 30)) (rnd53 (1 / 10 ^ 6)) of
         Inl ConvergenceFailed \<Rightarrow> Inr None
       | r \<Rightarrow> r)"
    by (simp only: if_True)
  from c he d x s hr small_day_offsets r show ?thesis
    by (intro conjI)
qed

section \<open>Signs that fit neither end\<close>

text \<open>
  C4, as stated, fails on floats. A NaN among the three values does not make both
  products of signs non-negative, and NaN does not show only as \<open>None\<close>. Take the default
  tolerances, the bracket \<open>[0, 10]\<close> and an objective that is 1 at 10 and NaN at 0, so
  that the sign test of line 41 lets the run into the loop and the first estimate is NaN.
  If the objective is \<open>- 1\<close> at NaN, neither stopping criterion holds in the first
  iteration, yet \<open>f(b_n) * f(m_n) = - 1 < 0\<close> and the run goes on with \<open>a_n = NaN\<close>.
  If the objective is 0 at NaN, the test on the value holds and \<open>secant\<close> returns NaN as
  the root.
\<close>

theorem nan_not_only_no_result_counterexample:
  "nan_at_zero_objective (Finite (- 1)) (Finite 0) = Inr NaN \<and>
   secant_state_nan rnd53 (nan_at_zero_objective (Finite (- 1)))
       (rnd53 (1 / 10 ^ 6)) (rnd53 (1 / 10 ^ 6)) (Finite 0) (Finite 10) 1 =
     Some (Finite 0, Finite 10, None) \<and>
   secant_step_nan rnd53 (nan_at_zero_objective (Finite (- 1)))
       (rnd53 (1 / 10 ^ 6)) (rnd53 (1 / 10 ^ 6)) 1 (Finite 0) (Finite 10) None =
     ContinueN NaN (Finite 10) None \<and>
   nan_at_zero_objective (Finite 0) (Finite 0) = Inr NaN \<and>
   secant_nan rnd53 (nan_at_zero_objective (Finite 0)) (Finite 0) (Finite 10) 2000
       (rnd53 (1 / 10 ^ 6)) (rnd53 (1 / 10 ^ 6)) = Inr (Some NaN)"
  unfolding One_nat_def
  using nan_at_zero_values(1) [of "Finite (- 1)"] nan_at_zero_state [of "Finite (- 1)"]
    nan_to_negative_step nan_at_zero_values(1) [of "Finite 0"] nan_to_zero_run
  by (intro conjI)

text \<open>
  C4, amended. Take an iteration that a run of \<open>secant\<close> reaches, in which the objective
  returns at both ends and at the estimate and the bracket is not narrower than
  \<open>eps_x\<close>. The pass returns \<open>None\<close>, and so does \<open>secant\<close>, raising nothing, in each of
  three cases: the objective is NaN at the estimate (whatever the rounding); the
  objective is NaN at an end of the bracket and at NaN; the value at the estimate is not
  below \<open>eps_y\<close> and neither product of signs compares below zero, being non-negative,
  rounded to zero or NaN, in an arithmetic where a negative result comes from a negative
  number and the product of two values not below \<open>eps_y\<close> does not underflow (binary64,
  with its gradual underflow, at the tolerance \<open>1e-6\<close>). In particular the stall check of
  lines 52 to 57 cannot raise there.
\<close>

theorem inconsistent_signs_no_result:
  assumes "secant_state_nan rnd f eps_y eps_x a b n = Some (a_n, b_n, prev_m_n)" and "n \<le> N"
    and "f a_n = Inr f_a_n" and "f b_n = Inr f_b_n"
    and "secant_estimate_nan rnd a_n b_n f_a_n f_b_n = Inr m_n" and "f m_n = Inr f_m_n"
    and "\<not> fl_less (fl_abs (fl_sub rnd b_n a_n)) (Finite eps_x)"
    and "f_m_n = NaN \<or>
         (f_a_n = NaN \<or> f_b_n = NaN) \<and> f NaN = Inr NaN \<or>
         keeps_signs_above rnd eps_y \<and> \<not> fl_less (fl_abs f_m_n) (Finite eps_y) \<and>
           \<not> fl_less (fl_mul rnd f_a_n f_m_n) (Finite 0) \<and>
           \<not> fl_less (fl_mul rnd f_b_n f_m_n) (Finite 0)"
  shows "secant_step_nan rnd f eps_y eps_x n a_n b_n prev_m_n = ReturnN None \<and>
         secant_nan rnd f a b N eps_y eps_x = Inr None"
proof -
  note st = assms(1) and n = assms(2) and fa = assms(3) and fb = assms(4)
    and est = assms(5) and fm = assms(6) and ex = assms(7)
  have ck: "checkpoint_finite f prev_m_n"
    by (rule secant_state_nan_checkpoint [OF st])
  from assms(8) consider
      (at_estimate) "f_m_n = NaN"
    | (at_end) "f_a_n = NaN \<or> f_b_n = NaN" "f NaN = Inr NaN"
    | (by_signs) "keeps_signs_above rnd eps_y" "\<not> fl_less (fl_abs f_m_n) (Finite eps_y)"
        "\<not> fl_less (fl_mul rnd f_a_n f_m_n) (Finite 0)"
        "\<not> fl_less (fl_mul rnd f_b_n f_m_n) (Finite 0)"
    by blast
  then have step: "secant_step_nan rnd f eps_y eps_x n a_n b_n prev_m_n = ReturnN None"
  proof cases
    case at_estimate
    with fm have "f m_n = Inr NaN" by simp
    then show ?thesis
      by (rule nan_estimate_returns_none [OF ck fa fb est _ ex])
  next
    case at_end
    from est have "m_n = NaN"
      by (simp add: secant_estimate_nan_of_nan [OF at_end(1)])
    with at_end(2) have "f m_n = Inr NaN" by simp
    then show ?thesis
      by (rule nan_estimate_returns_none [OF ck fa fb est _ ex])
  next
    case by_signs
    from secant_state_nan_signs [OF by_signs(1) st]
    have br: "bracketed_nan f a_n b_n" and co: "checkpoint_opposed rnd f eps_y a_n b_n prev_m_n"
      by simp_all
    show ?thesis
      by (rule no_negative_product_no_result
          [OF by_signs(1) br co fa fb est fm ex by_signs(2) by_signs(3) by_signs(4)])
  qed
  have "secant_nan rnd f a b N eps_y eps_x =
      secant_loop_nan rnd f N eps_y eps_x n a_n b_n prev_m_n"
    by (rule secant_state_nan_run [OF st])
  also have "\<dots> = Inr None"
    unfolding secant_loop_nan_unfold [OF n] step outcome_nan.case ..
  finally show ?thesis
    using step by simp
qed

theorem inconsistent_signs_no_result_witness:
  "secant_state_nan rnd53 nan_inside_objective (rnd53 (1 / 10 ^ 6)) (rnd53 (1 / 10 ^ 6))
       (Finite 0) (Finite 10) 1 = Some (Finite 0, Finite 10, None) \<and>
   (1 :: nat) \<le> 2000 \<and>
   nan_inside_objective (Finite 0) = Inr (Finite (- 1)) \<and>
   nan_inside_objective (Finite 10) = Inr (Finite 1) \<and>
   secant_estimate_nan rnd53 (Finite 0) (Finite 10) (Finite (- 1)) (Finite 1) = Inr (Finite 5) \<and>
   nan_inside_objective (Finite 5) = Inr NaN \<and>
   \<not> fl_less (fl_abs (fl_sub rnd53 (Finite 10) (Finite 0))) (Finite (rnd53 (1 / 10 ^ 6))) \<and>
   secant_step_nan rnd53 nan_inside_objective (rnd53 (1 / 10 ^ 6)) (rnd53 (1 / 10 ^ 6)) 1
       (Finite 0) (Finite 10) None = ReturnN None \<and>
   secant_nan rnd53 nan_inside_objective (Finite 0) (Finite 10) 2000
       (rnd53 (1 / 10 ^ 6)) (rnd53 (1 / 10 ^ 6)) = Inr None \<and>
   nan_at_zero_objective NaN (Finite 0) = Inr NaN \<and>
   nan_at_zero_objective NaN NaN = Inr NaN \<and>
   secant_nan rnd53 (nan_at_zero_objective NaN) (Finite 0) (Finite 10) 2000
       (rnd53 (1 / 10 ^ 6)) (rnd53 (1 / 10 ^ 6)) = Inr None \<and>
   keeps_signs_above rnd53 (rnd53 (1 / 10 ^ 6)) \<and>
   nan_at_zero_objective (Finite 1) (Finite 0) = Inr NaN \<and>
   nan_at_zero_objective (Finite 1) NaN = Inr (Finite 1) \<and>
   \<not> fl_less (fl_abs (Finite 1)) (Finite (rnd53 (1 / 10 ^ 6))) \<and>
   \<not> fl_less (fl_mul rnd53 NaN (Finite 1)) (Finite 0) \<and>
   \<not> fl_less (fl_mul rnd53 (Finite 1) (Finite 1)) (Finite 0) \<and>
   secant_nan rnd53 (nan_at_zero_objective (Finite 1)) (Finite 0) (Finite 10) 2000
       (rnd53 (1 / 10 ^ 6)) (rnd53 (1 / 10 ^ 6)) = Inr None \<and>
   keeps_signs_above rnd64 (rnd53 (1 / 10 ^ 6)) \<and>
   secant_state_nan rnd64 underflow_objective (rnd53 (1 / 10 ^ 6)) (rnd53 (1 / 10 ^ 6))
       (Finite 0) (Finite 10) 1 = Some (Finite 0, Finite 10, None) \<and>
   underflow_objective (Finite 0) = Inr (Finite (1 / 2 ^ 1074)) \<and>
   underflow_objective (Finite 10) = Inr (Finite (- 1)) \<and>
   secant_estimate_nan rnd64 (Finite 0) (Finite 10) (Finite (1 / 2 ^ 1074)) (Finite (- 1)) =
     Inr (Finite (10 / 2 ^ 1074)) \<and>
   underflow_objective (Finite (10 / 2 ^ 1074)) = Inr (Finite (- (1 / 2 ^ 10))) \<and>
   \<not> fl_less (fl_abs (fl_sub rnd64 (Finite 10) (Finite 0))) (Finite (rnd53 (1 / 10 ^ 6))) \<and>
   \<not> fl_less (fl_abs (Finite (- (1 / 2 ^ 10)))) (Finite (rnd53 (1 / 10 ^ 6))) \<and>
   \<not> fl_less (fl_mul rnd64 (Finite (1 / 2 ^ 1074)) (Finite (- (1 / 2 ^ 10)))) (Finite 0) \<and>
   \<not> fl_less (fl_mul rnd64 (Finite (- 1)) (Finite (- (1 / 2 ^ 10)))) (Finite 0) \<and>
   secant_step_nan rnd64 underflow_objective (rnd53 (1 / 10 ^ 6)) (rnd53 (1 / 10 ^ 6)) 1
       (Finite 0) (Finite 10) None = ReturnN None \<and>
   secant_nan rnd64 underflow_objective (Finite 0) (Finite 10) 2000
       (rnd53 (1 / 10 ^ 6)) (rnd53 (1 / 10 ^ 6)) = Inr None"
proof -
  have n: "Suc 0 \<le> 2000" by simp
  have d1: "NaN = NaN \<or>
      (Finite (- 1) = NaN \<or> Finite 1 = NaN) \<and> nan_inside_objective NaN = Inr NaN \<or>
      keeps_signs_above rnd53 (rnd53 (1 / 10 ^ 6)) \<and>
        \<not> fl_less (fl_abs NaN) (Finite (rnd53 (1 / 10 ^ 6))) \<and>
        \<not> fl_less (fl_mul rnd53 (Finite (- 1)) NaN) (Finite 0) \<and>
        \<not> fl_less (fl_mul rnd53 (Finite 1) NaN) (Finite 0)"
    by simp
  note r1 = inconsistent_signs_no_result [OF nan_inside_state n nan_inside_values(1)
      nan_inside_values(2) nan_inside_estimate nan_inside_values(3) nan_inside_width d1]
  have d2: "NaN = NaN \<or>
      (NaN = NaN \<or> Finite 1 = NaN) \<and> nan_at_zero_objective NaN NaN = Inr NaN \<or>
      keeps_signs_above rnd53 (rnd53 (1 / 10 ^ 6)) \<and>
        \<not> fl_less (fl_abs NaN) (Finite (rnd53 (1 / 10 ^ 6))) \<and>
        \<not> fl_less (fl_mul rnd53 NaN NaN) (Finite 0) \<and>
        \<not> fl_less (fl_mul rnd53 (Finite 1) NaN) (Finite 0)"
    by simp
  note r2 = inconsistent_signs_no_result [OF nan_at_zero_state n nan_at_zero_values(1)
      nan_at_zero_values(2) nan_at_zero_estimate nan_at_zero_values(3) nan_inside_width d2]
  have k53: "keeps_signs_above rnd53 (rnd53 (1 / 10 ^ 6))"
    by (rule sign_faithful_keeps_signs [OF sign_faithful_rnd53])
  have d3: "Finite 1 = NaN \<or>
      (NaN = NaN \<or> Finite 1 = NaN) \<and> nan_at_zero_objective (Finite 1) NaN = Inr NaN \<or>
      keeps_signs_above rnd53 (rnd53 (1 / 10 ^ 6)) \<and>
        \<not> fl_less (fl_abs (Finite 1)) (Finite (rnd53 (1 / 10 ^ 6))) \<and>
        \<not> fl_less (fl_mul rnd53 NaN (Finite 1)) (Finite 0) \<and>
        \<not> fl_less (fl_mul rnd53 (Finite 1) (Finite 1)) (Finite 0)"
    using k53 nan_to_positive_tests by blast
  note r3 = inconsistent_signs_no_result [OF nan_at_zero_state n nan_at_zero_values(1)
      nan_at_zero_values(2) nan_at_zero_estimate nan_at_zero_values(3) nan_inside_width d3]
  have d4: "Finite (- (1 / 2 ^ 10)) = NaN \<or>
      (Finite (1 / 2 ^ 1074) = NaN \<or> Finite (- 1) = NaN) \<and> underflow_objective NaN = Inr NaN \<or>
      keeps_signs_above rnd64 (rnd53 (1 / 10 ^ 6)) \<and>
        \<not> fl_less (fl_abs (Finite (- (1 / 2 ^ 10)))) (Finite (rnd53 (1 / 10 ^ 6))) \<and>
        \<not> fl_less (fl_mul rnd64 (Finite (1 / 2 ^ 1074)) (Finite (- (1 / 2 ^ 10)))) (Finite 0) \<and>
        \<not> fl_less (fl_mul rnd64 (Finite (- 1)) (Finite (- (1 / 2 ^ 10)))) (Finite 0)"
    using rnd64_keeps_signs underflow_tests by blast
  note r4 = inconsistent_signs_no_result [OF underflow_state n underflow_values(1)
      underflow_values(2) underflow_estimate underflow_values(3) underflow_width d4]
  show ?thesis
    unfolding One_nat_def
    using nan_inside_state n nan_inside_values nan_inside_estimate nan_inside_width
      r1 [THEN conjunct1] r1 [THEN conjunct2]
      nan_at_zero_values(1) [of NaN] nan_at_zero_values(3) [of NaN] r2 [THEN conjunct2]
      k53
      nan_at_zero_values(1) [of "Finite 1"] nan_at_zero_values(3) [of "Finite 1"]
      nan_to_positive_tests r3 [THEN conjunct2]
      rnd64_keeps_signs underflow_state underflow_values(1) underflow_values(2)
      underflow_estimate underflow_values(3) underflow_width underflow_tests
      r4 [THEN conjunct1] r4 [THEN conjunct2]
    by (intro conjI)
qed

section \<open>The silent flag\<close>

text \<open>
  C8. When the solver called by \<open>xirr\<close> raises \<open>ConvergenceFailed\<close>, \<open>xirr\<close> raises it
  too with \<open>silent\<close> false and returns \<open>None\<close> with \<open>silent\<close> true; for every other
  outcome of the solver, a rate, \<open>None\<close> or another exception, \<open>xirr\<close> has that outcome
  whatever \<open>silent\<close> is. This holds for every rounding.
\<close>

theorem silent_only_silences_stall:
  "(xirr_solve rnd cash_flow = Inl ConvergenceFailed \<longrightarrow>
      xirr rnd cash_flow guess False = Inl ConvergenceFailed \<and>
      xirr rnd cash_flow guess True = Inr None) \<and>
   (xirr_solve rnd cash_flow \<noteq> Inl ConvergenceFailed \<longrightarrow>
      xirr rnd cash_flow guess silent = xirr_solve rnd cash_flow)"
proof (intro conjI impI)
  assume "xirr_solve rnd cash_flow = Inl ConvergenceFailed"
  then show "xirr rnd cash_flow guess False = Inl ConvergenceFailed"
    and "xirr rnd cash_flow guess True = Inr None"
    by (simp_all add: xirr_def)
next
  assume "xirr_solve rnd cash_flow \<noteq> Inl ConvergenceFailed"
  then show "xirr rnd cash_flow guess silent = xirr_solve rnd cash_flow"
    by (cases "xirr_solve rnd cash_flow") (auto simp: xirr_def split: error.splits)
qed

text \<open>
  In binary64 the series with the large amounts is one on which the solver stalls.
\<close>

theorem silent_only_silences_stall_witness:
  "xirr_solve rnd53 [(0, - (2 ^ 100 + 2 ^ 48)), (365, 11 * 2 ^ 100)] = Inl ConvergenceFailed \<and>
   xirr rnd53 [(0, - (2 ^ 100 + 2 ^ 48)), (365, 11 * 2 ^ 100)] () False = Inl ConvergenceFailed \<and>
   xirr rnd53 [(0, - (2 ^ 100 + 2 ^ 48)), (365, 11 * 2 ^ 100)] () True = Inr None \<and>
   xirr_solve exact [(0, 1)] = Inr None \<and>
   xirr exact [(0, 1)] () True = Inr None \<and>
   xirr exact [(0, 1)] () False = Inr None"
proof -
  have s: "xirr_solve exact [(0, 1)] = Inr None"
    by (simp add: xirr_solve_def day_offsets_single secant_def xnpv_single) (simp add: exact_def)
  then have ne: "xirr_solve exact [(0, 1)] \<noteq> Inl ConvergenceFailed" by simp
  note stall = silent_only_silences_stall [of rnd53 "[(0, - (2 ^ 100 + 2 ^ 48)), (365, 11 * 2 ^ 100)]" "()",
      THEN conjunct1, rule_format, OF large_solve_stalls]
  note quiet = silent_only_silences_stall [of exact "[(0, 1)]" _ _, THEN conjunct2, rule_format, OF ne]
  from large_solve_stalls stall s quiet [of "()" True] quiet [of "()" False]
  show ?thesis by (simp only: simp_thms)
qed


section \<open>Stall detection\<close>

text \<open>
  C1. The checkpoint is recorded at iteration 100 and never replaced, so a later
  checkpoint is compared with the estimate of iteration 100, not with the estimate of
  the checkpoint before it. In binary64, \<open>secant\<close> on \<open>stall_objective\<close> over the bracket
  from 0 to \<open>2 ^ 200\<close> with 300 iterations and the default tolerances has the estimate
  \<open>2 ^ 100\<close> at iteration 100 and the same estimate \<open>2 ^ 50\<close> at the iterations 200 and
  300, no stopping criterion holds on the way, and the run returns \<open>None\<close> where the
  claim has it raise \<open>ConvergenceFailed\<close>.
\<close>

theorem stall_after_first_checkpoint_missed:
  "secant_state rnd53 stall_objective (rnd53 (1 / 10 ^ 6)) (rnd53 (1 / 10 ^ 6)) 0 (2 ^ 200) 100 =
     Some (0, 2 ^ 101, None) \<and>
   secant_estimate rnd53 0 (2 ^ 101) (2 ^ 100) (- (2 ^ 100)) = 2 ^ 100 \<and>
   secant_state rnd53 stall_objective (rnd53 (1 / 10 ^ 6)) (rnd53 (1 / 10 ^ 6)) 0 (2 ^ 200) 200 =
     Some (0, 2 ^ 50, Some (2 ^ 100)) \<and>
   secant_state rnd53 stall_objective (rnd53 (1 / 10 ^ 6)) (rnd53 (1 / 10 ^ 6)) 0 (2 ^ 200) 300 =
     Some (0, 2 ^ 50, Some (2 ^ 100)) \<and>
   stall_objective 0 = Inr (2 ^ 100) \<and> stall_objective (2 ^ 50) = Inr (- 1) \<and>
   secant_estimate rnd53 0 (2 ^ 50) (2 ^ 100) (- 1) = 2 ^ 50 \<and>
   secant rnd53 stall_objective 0 (2 ^ 200) 300 (rnd53 (1 / 10 ^ 6)) (rnd53 (1 / 10 ^ 6)) = Inr None"
proof (intro conjI)
  have "Suc 99 = 100" "200 - 99 = (101 :: nat)" by simp_all
  then show "secant_state rnd53 stall_objective (rnd53 (1 / 10 ^ 6)) (rnd53 (1 / 10 ^ 6)) 0 (2 ^ 200) 100 =
      Some (0, 2 ^ 101, None)"
    using stall_state_halving [of 99] by simp
  have "Suc 100 = 101" by simp
  then show "secant_estimate rnd53 0 (2 ^ 101) (2 ^ 100) (- (2 ^ 100)) = 2 ^ 100"
    using estimate_halving [of 100 100] by (simp only:)
  have "Suc 150 + 49 = 200" by simp
  then show st200: "secant_state rnd53 stall_objective (rnd53 (1 / 10 ^ 6)) (rnd53 (1 / 10 ^ 6)) 0 (2 ^ 200) 200 =
      Some (0, 2 ^ 50, Some (2 ^ 100))"
    using stall_state_stuck [of 49] by (simp only:)
  have "Suc 150 + 149 = 300" by simp
  then show "secant_state rnd53 stall_objective (rnd53 (1 / 10 ^ 6)) (rnd53 (1 / 10 ^ 6)) 0 (2 ^ 200) 300 =
      Some (0, 2 ^ 50, Some (2 ^ 100))"
    using stall_state_stuck [of 149] by (simp only:)
  show "stall_objective 0 = Inr (2 ^ 100)" by (rule stall_objective_zero)
  show "stall_objective (2 ^ 50) = Inr (- 1)" by (rule stall_objective_low)
  show "secant_estimate rnd53 0 (2 ^ 50) (2 ^ 100) (- 1) = 2 ^ 50" by (rule estimate_stuck)
  have "secant rnd53 stall_objective 0 (2 ^ 200) 300 (rnd53 (1 / 10 ^ 6)) (rnd53 (1 / 10 ^ 6)) =
      secant_loop rnd53 stall_objective 300 (rnd53 (1 / 10 ^ 6)) (rnd53 (1 / 10 ^ 6)) 200 0 (2 ^ 50)
        (Some (2 ^ 100))"
    by (rule secant_state_run [OF st200])
  also have "\<dots> = Inr None"
    by (rule stuck_other [where m = "2 ^ 50"], rule step_stuck) simp
  finally show "secant rnd53 stall_objective 0 (2 ^ 200) 300 (rnd53 (1 / 10 ^ 6)) (rnd53 (1 / 10 ^ 6)) =
      Inr None" .
qed


end
